theory Spec2Isabelle
  imports Main "HOL-Library.Word" "HOL-Library.Sublist"
begin

section \<open>JavaScript strings and values\<close>

text \<open>
  A JavaScript string is a sequence of 16-bit code units; \<open>length\<close> counts code units, as
  \<^verbatim>\<open>.length\<close> does. The text of the source's string and template literals is ASCII and is
  written with \<open>ascii\<close>.
\<close>

type_synonym jschar = "16 word"
type_synonym jsstring = "jschar list"

definition ascii :: "string \<Rightarrow> jsstring" where
  "ascii s = map of_char s"

text \<open>
  A property of a parsed JSON object is absent (reads as \<^verbatim>\<open>undefined\<close>), \<^verbatim>\<open>null\<close>, or holds a
  value. The fields of a tool are strings where they hold a value (section 3 of the
  specification), so \<open>String(x)\<close> is needed on \<^verbatim>\<open>undefined\<close>, \<^verbatim>\<open>null\<close> and strings only.
\<close>

datatype 'a jsval = Undefined | Null | Val 'a

datatype error = URIError | TypeError | SyntaxError | AbortError

fun ToString :: "jsstring jsval \<Rightarrow> jsstring" where
  "ToString Undefined = ascii ''undefined''"
| "ToString Null = ascii ''null''"
| "ToString (Val s) = s"

text \<open>\<^verbatim>\<open>a || b\<close> on string-valued properties: the empty string is falsy, as are
  \<^verbatim>\<open>undefined\<close> and \<^verbatim>\<open>null\<close>.\<close>

fun truthy :: "jsstring jsval \<Rightarrow> bool" where
  "truthy (Val s) = (s \<noteq> [])"
| "truthy Undefined = False"
| "truthy Null = False"

definition or_else :: "jsstring jsval \<Rightarrow> jsstring jsval \<Rightarrow> jsstring jsval" where
  "or_else a b = (if truthy a then a else b)"

text \<open>\<^verbatim>\<open>xs || []\<close> on an array-valued property: every array is truthy, the empty one too.\<close>

fun or_empty :: "'a list jsval \<Rightarrow> 'a list" where
  "or_empty (Val xs) = xs"
| "or_empty Undefined = []"
| "or_empty Null = []"

subsection \<open>String.prototype.replaceAll\<close>

text \<open>
  \<^verbatim>\<open>s.replaceAll(pat, rep)\<close> with a string pattern replaces the non-overlapping occurrences
  of \<open>pat\<close> from left to right; the empty pattern matches before every code unit and at
  the end. None of the replacement texts of the source contains \<^verbatim>\<open>$\<close>, so the replacement
  is inserted as it is.
\<close>

function replaceAll :: "jsstring \<Rightarrow> jsstring \<Rightarrow> jsstring \<Rightarrow> jsstring" where
  "replaceAll s pat rep =
     (if pat = [] then rep @ concat (map (\<lambda>c. c # rep) s)
      else if s = [] then []
      else if prefix pat s then rep @ replaceAll (drop (length pat) s) pat rep
      else hd s # replaceAll (tl s) pat rep)"
  by pat_completeness auto
termination
  by (relation "measure (\<lambda>(s, pat, rep). length s)") auto

declare replaceAll.simps [simp del]

subsection \<open>escapeHTML (app.js, lines 11 to 18)\<close>

definition escapeHTML :: "jsstring jsval \<Rightarrow> jsstring" where
  "escapeHTML str =
     replaceAll (replaceAll (replaceAll (replaceAll (replaceAll (ToString str)
       (ascii ''&'') (ascii ''&amp;''))
       (ascii ''<'') (ascii ''&lt;''))
       (ascii ''>'') (ascii ''&gt;''))
       [0x22] (ascii ''&quot;''))
       [0x27] (ascii ''&#39;'')"

subsection \<open>encodeURIComponent\<close>

text \<open>
  The characters that \<^verbatim>\<open>encodeURIComponent\<close> leaves alone: ASCII letters and digits and
  \<^verbatim>\<open>- _ . ! ~ * ' ( )\<close>. Every other code point is written as the percent-escaped bytes of its
  UTF-8 encoding; a surrogate code unit that is not part of a pair raises \<open>URIError\<close>.
\<close>

definition uriUnreserved :: "jschar \<Rightarrow> bool" where
  "uriUnreserved c =
     ((0x41 \<le> c \<and> c \<le> 0x5A) \<or> (0x61 \<le> c \<and> c \<le> 0x7A) \<or> (0x30 \<le> c \<and> c \<le> 0x39)
      \<or> c \<in> set (ascii ''-_.!~*()'') \<or> c = 0x27)"

definition utf8 :: "nat \<Rightarrow> nat list" where
  "utf8 cp =
     (if cp < 0x80 then [cp]
      else if cp < 0x800 then [0xC0 + cp div 0x40, 0x80 + cp mod 0x40]
      else if cp < 0x10000 then
        [0xE0 + cp div 0x1000, 0x80 + cp div 0x40 mod 0x40, 0x80 + cp mod 0x40]
      else
        [0xF0 + cp div 0x40000, 0x80 + cp div 0x1000 mod 0x40,
         0x80 + cp div 0x40 mod 0x40, 0x80 + cp mod 0x40])"

definition hexDigit :: "nat \<Rightarrow> jschar" where
  "hexDigit n = (if n < 10 then of_nat (0x30 + n) else of_nat (0x41 + (n - 10)))"

definition percent :: "nat \<Rightarrow> jsstring" where
  "percent b = [0x25, hexDigit (b div 16), hexDigit (b mod 16)]"

definition isLead :: "jschar \<Rightarrow> bool" where
  "isLead c = (0xD800 \<le> c \<and> c \<le> 0xDBFF)"

definition isTrail :: "jschar \<Rightarrow> bool" where
  "isTrail c = (0xDC00 \<le> c \<and> c \<le> 0xDFFF)"

definition pairCodePoint :: "jschar \<Rightarrow> jschar \<Rightarrow> nat" where
  "pairCodePoint hi lo = 0x10000 + (unat hi - 0xD800) * 0x400 + (unat lo - 0xDC00)"

fun Encode :: "jsstring \<Rightarrow> error + jsstring" where
  "Encode [] = Inr []"
| "Encode (c # cs) =
     (if uriUnreserved c then
        (case Encode cs of Inl e \<Rightarrow> Inl e | Inr r \<Rightarrow> Inr (c # r))
      else if isLead c then
        (case cs of
           [] \<Rightarrow> Inl URIError
         | d # ds \<Rightarrow>
             if isTrail d then
               (case Encode ds of
                  Inl e \<Rightarrow> Inl e
                | Inr r \<Rightarrow> Inr (concat (map percent (utf8 (pairCodePoint c d))) @ r))
             else Inl URIError)
      else if isTrail c then Inl URIError
      else
        (case Encode cs of
           Inl e \<Rightarrow> Inl e
         | Inr r \<Rightarrow> Inr (concat (map percent (utf8 (unat c))) @ r)))"

definition encodeURIComponent :: "jsstring jsval \<Rightarrow> error + jsstring" where
  "encodeURIComponent v = Encode (ToString v)"

section \<open>Tools and tool cards\<close>

record tool =
  slug :: "jsstring jsval"
  name :: "jsstring jsval"
  url :: "jsstring jsval"
  icon :: "jsstring jsval"
  pricing_type :: "jsstring jsval"
  description :: "jsstring jsval"
  category :: "jsstring jsval"
  use_cases :: "jsstring jsval list jsval"

subsection \<open>The fixed text of the card template (app.js, lines 24 to 49)\<close>

definition card_head :: jsstring where
\<open>card_head = ascii (concat [
      ''\<newline>'',
      ''    <div class="glass-card group flex h-full flex-col overflow-hidden">\<newline>'',
      ''      <div class="flex items-start gap-4 p-5">\<newline>'',
      ''        <div class="grid h-11 w-11 shrink-0 place-items-center rounded-2xl bg-white/10 ring-1 ring-white/15">\<newline>'',
      ''          <span class="text-sm font-semibold text-white/90">''])\<close>

definition after_icon :: jsstring where
\<open>after_icon = ascii (concat [
      ''</span>\<newline>'',
      ''        </div>\<newline>'',
      ''        <div class="min-w-0 flex-1">\<newline>'',
      ''          <div class="flex items-center justify-between gap-3">\<newline>'',
      ''            <a href="''])\<close>

definition after_name_href :: jsstring where
\<open>after_name_href =
      ascii ''" class="truncate text-base font-semibold tracking-tight text-white hover:text-white/90">''\<close>

definition after_name :: jsstring where
\<open>after_name = ascii (concat [
      ''</a>\<newline>'',
      ''            <span class="badge">''])\<close>

definition after_pricing :: jsstring where
\<open>after_pricing = ascii (concat [
      ''</span>\<newline>'',
      ''          </div>\<newline>'',
      ''          <p class="mt-1 line-clamp-2 text-sm text-white/70">''])\<close>

definition after_description :: jsstring where
\<open>after_description = ascii (concat [
      ''</p>\<newline>'',
      ''          <div class="mt-3 flex flex-wrap gap-2">\<newline>'',
      ''            <span class="pill">''])\<close>

definition after_category :: jsstring where
\<open>after_category = ascii (concat [
      ''</span>\<newline>'',
      ''            ''])\<close>

definition after_pills :: jsstring where
\<open>after_pills = ascii (concat [
      ''\<newline>'',
      ''          </div>\<newline>'',
      ''        </div>\<newline>'',
      ''      </div>\<newline>'',
      ''      <div class="mt-auto border-t border-white/10 p-5">\<newline>'',
      ''        <div class="flex items-center justify-between gap-3">\<newline>'',
      ''          <a href="''])\<close>

definition after_visit :: jsstring where
\<open>after_visit = ascii (concat [
      ''" target="_blank" rel="noopener noreferrer" class="inline-flex items-center justify-center rounded-xl bg-white px-4 py-2 text-sm font-semibold text-slate-900 hover:bg-white/90">Visit Tool</a>\<newline>'',
      ''          <a href="''])\<close>

definition after_details_href :: jsstring where
\<open>after_details_href = ascii (concat [
      ''" class="text-sm font-semibold text-white/70 hover:text-white">Details</a>\<newline>'',
      ''        </div>\<newline>'',
      ''      </div>\<newline>'',
      ''    </div>\<newline>'',
      ''  ''])\<close>

definition pill :: "jsstring jsval \<Rightarrow> jsstring" where
\<open>pill t = ascii ''<span class="pill pill-muted">'' @ escapeHTML t @ ascii ''</span>''\<close>

subsection \<open>renderToolCard (app.js, lines 20 to 50)\<close>

text \<open>
  The only call that can throw is \<^verbatim>\<open>encodeURIComponent\<close>, and it comes first; the card is
  the template text with the nine interpolated expressions in the order of the source.
\<close>

definition renderToolCard :: "tool \<Rightarrow> error + jsstring" where
  "renderToolCard tool =
     (case encodeURIComponent (slug tool) of
        Inl e \<Rightarrow> Inl e
      | Inr enc \<Rightarrow>
          (let href = ascii ''/tools/'' @ enc;
               visit = url tool
           in Inr (card_head
                @ escapeHTML (or_else (icon tool) (Val (ascii ''AI'')))
                @ after_icon
                @ href
                @ after_name_href
                @ escapeHTML (name tool)
                @ after_name
                @ escapeHTML (or_else (pricing_type tool) (Val []))
                @ after_pricing
                @ escapeHTML (or_else (description tool) (Val []))
                @ after_description
                @ escapeHTML (or_else (category tool) (Val []))
                @ after_category
                @ concat (map pill (take 3 (or_empty (use_cases tool))))
                @ after_pills
                @ ToString visit
                @ after_visit
                @ href
                @ after_details_href)))"

section \<open>The recommendation widget (app.js, lines 52 to 96)\<close>

text \<open>
  The widget does nothing on a page that lacks one of its four elements (line 58); what
  follows describes it on a page that has them: the text field (\<open>input_value\<close>), the
  results panel (\<open>recs_hidden\<close>: its class list holds \<^verbatim>\<open>hidden\<close>) and the grid
  (\<open>grid_innerHTML\<close>: the text last assigned to it).
\<close>

subsection \<open>The network's answer and postJSON (app.js, lines 1 to 9)\<close>

text \<open>
  The response of \<^verbatim>\<open>POST /api/recommend\<close> is an object with a \<open>tools\<close> property (absent,
  \<^verbatim>\<open>null\<close> or a list of tools). \<^verbatim>\<open>fetch\<close> rejects with a \<open>TypeError\<close> when the network fails
  and resolves for every HTTP status; \<^verbatim>\<open>res.json()\<close> rejects with a \<open>SyntaxError\<close> when the
  body is not JSON. \<open>postJSON\<close> never looks at the status.
\<close>

record response =
  tools :: "tool list jsval"

datatype body = JsonBody response | NotJson

datatype fetch_result = NetworkFailure | HttpResponse nat body

fun postJSON :: "fetch_result \<Rightarrow> error + response" where
  "postJSON NetworkFailure = Inl TypeError"
| "postJSON (HttpResponse status (JsonBody data)) = Inr data"
| "postJSON (HttpResponse status NotJson) = Inl SyntaxError"

subsection \<open>The state of the page and of the host\<close>

text \<open>
  One request belongs to each \<^verbatim>\<open>AbortController\<close>; a controller is named by the position of
  its request in \<open>requests\<close>. \<open>aborted\<close> is the controller's signal, \<open>settled\<close> says that the
  code after the \<^verbatim>\<open>await\<close> of that call of \<open>run\<close> has been executed. \<open>timers\<close> is the host's
  table of pending timeouts (identifier and due time in milliseconds); every timeout of
  this page calls \<open>run\<close>.
\<close>

record request =
  task :: jsstring
  aborted :: bool
  settled :: bool

record state =
  input_value :: jsstring
  recs_hidden :: bool
  grid_innerHTML :: jsstring
  lastController :: "nat option"
  debounce :: "nat option"
  timers :: "(nat \<times> nat) list"
  timer_seq :: nat
  requests :: "request list"
  now :: nat

definition init :: "jsstring \<Rightarrow> bool \<Rightarrow> jsstring \<Rightarrow> state" where
  "init v h g =
     \<lparr>input_value = v, recs_hidden = h, grid_innerHTML = g, lastController = None,
      debounce = None, timers = [], timer_seq = 0, requests = [], now = 0\<rparr>"

subsection \<open>String.prototype.trim, timers, abort\<close>

definition isWhiteSpace :: "jschar \<Rightarrow> bool" where
  "isWhiteSpace c =
     (c \<in> {0x09, 0x0A, 0x0B, 0x0C, 0x0D, 0x20, 0xA0, 0x1680, 0x2028, 0x2029, 0x202F,
            0x205F, 0x3000, 0xFEFF}
      \<or> (0x2000 \<le> c \<and> c \<le> 0x200A))"

definition trim :: "jsstring \<Rightarrow> jsstring" where
  "trim s = rev (dropWhile isWhiteSpace (rev (dropWhile isWhiteSpace s)))"

definition clearTimeout :: "nat option \<Rightarrow> state \<Rightarrow> state" where
  "clearTimeout h s =
     (case h of
        None \<Rightarrow> s
      | Some i \<Rightarrow> s\<lparr>timers := filter (\<lambda>(j, due). j \<noteq> i) (timers s)\<rparr>)"

definition setTimeout :: "nat \<Rightarrow> state \<Rightarrow> nat \<times> state" where
  "setTimeout delay s =
     (timer_seq s,
      s\<lparr>timers := timers s @ [(timer_seq s, now s + delay)], timer_seq := Suc (timer_seq s)\<rparr>)"

definition abort :: "nat \<Rightarrow> state \<Rightarrow> state" where
  "abort c s =
     (if c < length (requests s)
      then s\<lparr>requests := (requests s)[c := (requests s ! c)\<lparr>aborted := True\<rparr>]\<rparr>
      else s)"

subsection \<open>The input listener (app.js, lines 92 to 95)\<close>

definition on_input :: "state \<Rightarrow> state" where
  "on_input s =
     (let s1 = clearTimeout (debounce s) s;
          (i, s2) = setTimeout 450 s1
      in s2\<lparr>debounce := Some i\<rparr>)"

subsection \<open>run, up to its await (app.js, lines 63 to 75)\<close>

text \<open>\<^verbatim>\<open>input.value\<close> is always a string, so \<^verbatim>\<open>input.value || ""\<close> is that string.\<close>

definition run :: "state \<Rightarrow> state" where
  "run s =
     (let task = trim (input_value s) in
      if length task < 3 then s\<lparr>recs_hidden := True, grid_innerHTML := []\<rparr>
      else
        (let s1 = (case lastController s of None \<Rightarrow> s | Some c \<Rightarrow> abort c s);
             s2 = s1\<lparr>lastController := Some (length (requests s1))\<rparr>
         in s2\<lparr>requests := requests s2 @ [\<lparr>task = task, aborted = False, settled = False\<rparr>]\<rparr>))"

subsection \<open>run, after its await (app.js, lines 76 to 89)\<close>

fun map_cards :: "tool list \<Rightarrow> error + jsstring list" where
  "map_cards [] = Inr []"
| "map_cards (t # ts) =
     (case renderToolCard t of
        Inl e \<Rightarrow> Inl e
      | Inr c \<Rightarrow> (case map_cards ts of Inl e \<Rightarrow> Inl e | Inr cs \<Rightarrow> Inr (c # cs)))"

definition try_block :: "response \<Rightarrow> state \<Rightarrow> error + state" where
  "try_block data s =
     (let ts = or_empty (tools data) in
      if length ts = 0 then Inr (s\<lparr>recs_hidden := True, grid_innerHTML := []\<rparr>)
      else
        (case map_cards (take 5 ts) of
           Inl e \<Rightarrow> Inl e
         | Inr cards \<Rightarrow> Inr (s\<lparr>grid_innerHTML := concat cards, recs_hidden := False\<rparr>)))"

definition catch_block :: "state \<Rightarrow> state" where
  "catch_block s = s\<lparr>recs_hidden := True, grid_innerHTML := []\<rparr>"

definition resume :: "error + response \<Rightarrow> state \<Rightarrow> state" where
  "resume r s =
     (case r of
        Inl e \<Rightarrow> catch_block s
      | Inr data \<Rightarrow> (case try_block data s of Inl e \<Rightarrow> catch_block s | Inr s' \<Rightarrow> s'))"

definition settle :: "nat \<Rightarrow> error + response \<Rightarrow> state \<Rightarrow> state" where
  "settle c r s =
     resume r (s\<lparr>requests := (requests s)[c := (requests s ! c)\<lparr>settled := True\<rparr>]\<rparr>)"

subsection \<open>The event loop\<close>

text \<open>
  The page is driven by four kinds of event: the user changes the text of the field,
  time passes, the host runs a timeout that is due, the network answers a request.
  Aborting a request that is still awaited rejects its promise with \<open>AbortError\<close>; the
  rejected call of \<open>run\<close> continues in its \<^verbatim>\<open>catch\<close> block as soon as the running task has
  finished (\<open>drain\<close>), before any other event. An event that cannot happen in the state
  (no timeout is due, the request is unknown or no longer awaited) changes nothing.
\<close>

datatype event = Input jsstring | Elapse nat | TimerFire | FetchSettle nat fetch_result

definition awaiting :: "request \<Rightarrow> bool" where
  "awaiting r = (\<not> settled r \<and> \<not> aborted r)"

definition rejected :: "request \<Rightarrow> bool" where
  "rejected r = (aborted r \<and> \<not> settled r)"

definition reject :: "nat \<Rightarrow> state \<Rightarrow> state" where
  "reject c s = (if rejected (requests s ! c) then settle c (Inl AbortError) s else s)"

definition drain :: "state \<Rightarrow> state" where
  "drain s = fold reject [0..<length (requests s)] s"

fun step :: "event \<Rightarrow> state \<Rightarrow> state" where
  "step (Input v) s = on_input (s\<lparr>input_value := v\<rparr>)"
| "step (Elapse d) s = s\<lparr>now := now s + d\<rparr>"
| "step TimerFire s =
     (case filter (\<lambda>(i, due). due \<le> now s) (timers s) of
        [] \<Rightarrow> s
      | (i, due) # rest \<Rightarrow> drain (run (s\<lparr>timers := filter (\<lambda>(j, d). j \<noteq> i) (timers s)\<rparr>)))"
| "step (FetchSettle c r) s =
     (if c < length (requests s) \<and> awaiting (requests s ! c)
      then settle c (postJSON r) s else s)"

definition exec :: "event list \<Rightarrow> state \<Rightarrow> state" where
  "exec es s = fold step es s"

subsection \<open>What holds between two events\<close>

text \<open>
  At most one timeout is pending and it is the one \<open>debounce\<close> names; \<open>lastController\<close> is
  the newest request; a request that was aborted, or that is not the newest, is no longer
  awaited.
\<close>

definition inv :: "state \<Rightarrow> bool" where
  "inv s \<longleftrightarrow>
     length (timers s) \<le> 1
   \<and> (\<forall>(i, due) \<in> set (timers s). debounce s = Some i)
   \<and> lastController s = (if requests s = [] then None else Some (length (requests s) - 1))
   \<and> (\<forall>c < length (requests s). aborted (requests s ! c) \<longrightarrow> settled (requests s ! c))
   \<and> (\<forall>c. Suc c < length (requests s) \<longrightarrow> settled (requests s ! c))"

section \<open>Escaping as the specification words it\<close>

text \<open>
  The specification asks that the five characters \<^verbatim>\<open>&\<close>, \<^verbatim>\<open><\<close>, \<^verbatim>\<open>>\<close>, \<^verbatim>\<open>"\<close> and \<^verbatim>\<open>'\<close> of a text
  be escaped: \<open>spec_escape\<close> replaces each of them by its entity in one pass and keeps
  every other code unit. \<open>markupChar\<close> holds of the four characters that delimit tags and
  attribute values.
\<close>

definition htmlEntity :: "jschar \<Rightarrow> jsstring" where
  "htmlEntity c =
     (if c = 0x26 then ascii ''&amp;''
      else if c = 0x3C then ascii ''&lt;''
      else if c = 0x3E then ascii ''&gt;''
      else if c = 0x22 then ascii ''&quot;''
      else if c = 0x27 then ascii ''&#39;''
      else [c])"

definition spec_escape :: "jsstring \<Rightarrow> jsstring" where
  "spec_escape s = concat (map htmlEntity s)"

definition markupChar :: "jschar \<Rightarrow> bool" where
  "markupChar c = (c = 0x3C \<or> c = 0x3E \<or> c = 0x22 \<or> c = 0x27)"

text \<open>The characters of a URI component: the unreserved ones and the percent sign.\<close>

definition uriChar :: "jschar \<Rightarrow> bool" where
  "uriChar c = (uriUnreserved c \<or> c = 0x25)"

section \<open>Tools, responses and states used as examples\<close>

text \<open>The tool of the specification's example: its name is a script element.\<close>

definition script_tool :: tool where
  "script_tool =
     \<lparr>slug = Val (ascii ''x''), name = Val (ascii ''<script>x</script>''),
      url = Val (ascii ''https://example.com/''), icon = Undefined,
      pricing_type = Undefined, description = Undefined, category = Undefined,
      use_cases = Undefined\<rparr>"

text \<open>A tool that has only the three required fields, and one that lacks its name too.\<close>

definition bare_tool :: tool where
  "bare_tool =
     \<lparr>slug = Val (ascii ''x''), name = Val (ascii ''X''),
      url = Val (ascii ''https://example.com/''), icon = Undefined,
      pricing_type = Undefined, description = Null, category = Undefined,
      use_cases = Undefined\<rparr>"

definition nameless_tool :: tool where
  "nameless_tool = bare_tool\<lparr>name := Undefined\<rparr>"

text \<open>A tool whose slug needs encoding and whose URL holds markup characters.\<close>

definition link_tool :: tool where
\<open>link_tool =
     \<lparr>slug = Val (ascii ''my tool/'' @ [0xE9]), name = Val (ascii ''T''),
      url = Val (ascii ''https://e.com/?q="><b>''), icon = Undefined,
      pricing_type = Undefined, description = Undefined, category = Undefined,
      use_cases = Undefined\<rparr>\<close>

text \<open>
  A state in which one request is awaited: the user typed \<^verbatim>\<open>abc\<close> into the empty field of a
  page that shows old results, and the timeout ran 450 ms later. A tool whose slug is a
  lone surrogate, as the JSON text \<^verbatim>\<open>"\ud800"\<close> gives.
\<close>

definition pending_state :: state where
  "pending_state =
     exec [Input (ascii ''abc''), Elapse 450, TimerFire] (init [] False (ascii ''old''))"

definition surrogate_tool :: tool where
  "surrogate_tool = bare_tool\<lparr>slug := Val [0xD800]\<rparr>"

text \<open>A response with seven tools; the first has four use cases.\<close>

definition named_tool :: "string \<Rightarrow> tool" where
  "named_tool n = bare_tool\<lparr>slug := Val (ascii n), name := Val (ascii n)\<rparr>"

definition seven_tools :: "tool list" where
  "seven_tools =
     [(named_tool ''a'')\<lparr>use_cases :=
         Val [Val (ascii ''u1''), Val (ascii ''u2''), Val (ascii ''u3''), Val (ascii ''u4'')]\<rparr>,
      named_tool ''b'', named_tool ''c'', named_tool ''d'', named_tool ''e'',
      named_tool ''f'', named_tool ''g'']"

text \<open>
  Two overlapping searches: the request for \<^verbatim>\<open>abc\<close> is awaited when the user types \<^verbatim>\<open>abcd\<close>;
  in \<open>overlap_state\<close> the second timeout is due, in \<open>both_state\<close> it has run.
\<close>

definition overlap_state :: state where
  "overlap_state =
     exec [Input (ascii ''abc''), Elapse 450, TimerFire, Input (ascii ''abcd''), Elapse 450]
       (init [] False (ascii ''old''))"

definition both_state :: state where
  "both_state =
     exec [Input (ascii ''abc''), Elapse 450, TimerFire, Input (ascii ''abcd''), Elapse 450,
           TimerFire]
       (init [] False (ascii ''old''))"

section \<open>Rapid input\<close>

text \<open>
  \<open>quiet el es\<close>: in the events \<open>es\<close>, which begin \<open>el\<close> milliseconds after an input event,
  every further input event comes less than 450 ms after the input event before it.
  \<open>final_value v es\<close> is the text of the last input event of \<open>es\<close>, or \<open>v\<close> when there is none.
  \<open>issued v\<close> lists the requests that a search for the text \<open>v\<close> issues.
\<close>

fun quiet :: "nat \<Rightarrow> event list \<Rightarrow> bool" where
  "quiet el [] = True"
| "quiet el (Input v # es) = (el < 450 \<and> quiet 0 es)"
| "quiet el (Elapse d # es) = quiet (el + d) es"
| "quiet el (TimerFire # es) = quiet el es"
| "quiet el (FetchSettle c r # es) = quiet el es"

fun final_value :: "jsstring \<Rightarrow> event list \<Rightarrow> jsstring" where
  "final_value v [] = v"
| "final_value v (Input w # es) = final_value w es"
| "final_value v (Elapse d # es) = final_value v es"
| "final_value v (TimerFire # es) = final_value v es"
| "final_value v (FetchSettle c r # es) = final_value v es"

definition issued :: "jsstring \<Rightarrow> jsstring list" where
  "issued v = (if 3 \<le> length (trim v) then [trim v] else [])"

section \<open>Basic facts about the widget\<close>

lemma resume_fields [simp]:
  "requests (resume r s) = requests s"
  "lastController (resume r s) = lastController s"
  "timers (resume r s) = timers s"
  "debounce (resume r s) = debounce s"
  "timer_seq (resume r s) = timer_seq s"
  "now (resume r s) = now s"
  "input_value (resume r s) = input_value s"
  by (auto simp: resume_def try_block_def catch_block_def Let_def split: sum.splits)

lemma settle_fields [simp]:
  "requests (settle c r s) = (requests s)[c := (requests s ! c)\<lparr>settled := True\<rparr>]"
  "lastController (settle c r s) = lastController s"
  "timers (settle c r s) = timers s"
  "debounce (settle c r s) = debounce s"
  "timer_seq (settle c r s) = timer_seq s"
  "now (settle c r s) = now s"
  "input_value (settle c r s) = input_value s"
  by (simp_all add: settle_def)

lemma settle_error_view [simp]:
  "recs_hidden (settle c (Inl e) s) = True"
  "grid_innerHTML (settle c (Inl e) s) = []"
  by (simp_all add: settle_def resume_def catch_block_def)

lemma fold_reject_Suc:
  "fold reject [0..<Suc k] s =
     (if rejected (requests (fold reject [0..<k] s) ! k)
      then settle k (Inl AbortError) (fold reject [0..<k] s) else fold reject [0..<k] s)"
  by (simp add: reject_def)

lemma fold_reject_props:
  "k \<le> length (requests s) \<Longrightarrow>
     length (requests (fold reject [0..<k] s)) = length (requests s)
   \<and> (\<forall>c < length (requests s).
        requests (fold reject [0..<k] s) ! c
          = (if c < k \<and> rejected (requests s ! c) then (requests s ! c)\<lparr>settled := True\<rparr>
             else requests s ! c))
   \<and> lastController (fold reject [0..<k] s) = lastController s
   \<and> timers (fold reject [0..<k] s) = timers s
   \<and> debounce (fold reject [0..<k] s) = debounce s
   \<and> timer_seq (fold reject [0..<k] s) = timer_seq s
   \<and> now (fold reject [0..<k] s) = now s
   \<and> input_value (fold reject [0..<k] s) = input_value s
   \<and> (if \<exists>c < k. rejected (requests s ! c)
       then recs_hidden (fold reject [0..<k] s) \<and> grid_innerHTML (fold reject [0..<k] s) = []
       else recs_hidden (fold reject [0..<k] s) = recs_hidden s
          \<and> grid_innerHTML (fold reject [0..<k] s) = grid_innerHTML s)"
proof (induction k)
  case 0
  then show ?case by simp
next
  case (Suc k)
  let ?s = "fold reject [0..<k] s"
  from Suc have k: "k < length (requests s)" by simp
  from Suc have len: "length (requests ?s) = length (requests s)"
    and nth: "\<forall>c < length (requests s).
        requests ?s ! c = (if c < k \<and> rejected (requests s ! c)
           then (requests s ! c)\<lparr>settled := True\<rparr> else requests s ! c)"
    and flds: "lastController ?s = lastController s" "timers ?s = timers s"
      "debounce ?s = debounce s" "timer_seq ?s = timer_seq s" "now ?s = now s"
      "input_value ?s = input_value s"
    and view: "if \<exists>c < k. rejected (requests s ! c)
       then recs_hidden ?s \<and> grid_innerHTML ?s = []
       else recs_hidden ?s = recs_hidden s \<and> grid_innerHTML ?s = grid_innerHTML s"
    by simp_all
  have at_k: "requests ?s ! k = requests s ! k"
    using nth k by simp
  show ?case
  proof (cases "rejected (requests s ! k)")
    case True
    then have eq: "fold reject [0..<Suc k] s = settle k (Inl AbortError) ?s"
      by (simp only: fold_reject_Suc at_k if_True)
    have ex: "\<exists>c < Suc k. rejected (requests s ! c)"
      using True by blast
    have "\<forall>c < length (requests s).
        requests (settle k (Inl AbortError) ?s) ! c
          = (if c < Suc k \<and> rejected (requests s ! c)
             then (requests s ! c)\<lparr>settled := True\<rparr> else requests s ! c)"
      using nth k len True
      by (auto simp: nth_list_update at_k less_Suc_eq)
    then show ?thesis
      using ex by (simp only: eq len flds settle_fields settle_error_view length_list_update if_True simp_thms)
  next
    case False
    then have eq: "fold reject [0..<Suc k] s = ?s"
      by (simp only: fold_reject_Suc at_k if_False)
    have ex: "(\<exists>c < Suc k. rejected (requests s ! c)) = (\<exists>c < k. rejected (requests s ! c))"
      using False by (auto simp: less_Suc_eq)
    have "\<forall>c < length (requests s).
        requests ?s ! c = (if c < Suc k \<and> rejected (requests s ! c)
           then (requests s ! c)\<lparr>settled := True\<rparr> else requests s ! c)"
      using nth False by (auto simp: less_Suc_eq)
    then show ?thesis
      using view by (simp only: eq len flds ex simp_thms)
  qed
qed

lemma drain_props:
  "length (requests (drain s)) = length (requests s)"
  "c < length (requests s) \<Longrightarrow>
     requests (drain s) ! c
       = (if rejected (requests s ! c) then (requests s ! c)\<lparr>settled := True\<rparr>
          else requests s ! c)"
  "lastController (drain s) = lastController s"
  "timers (drain s) = timers s"
  "debounce (drain s) = debounce s"
  "timer_seq (drain s) = timer_seq s"
  "now (drain s) = now s"
  "input_value (drain s) = input_value s"
  using fold_reject_props [of "length (requests s)" s]
  by (simp_all add: drain_def)

lemma drain_view:
  "recs_hidden (drain s) = ((\<exists>c < length (requests s). rejected (requests s ! c)) \<or> recs_hidden s)"
  "grid_innerHTML (drain s) =
     (if \<exists>c < length (requests s). rejected (requests s ! c) then [] else grid_innerHTML s)"
  using fold_reject_props [of "length (requests s)" s]
  by (auto simp add: drain_def split: if_splits)

lemma drain_idle:
  "\<forall>c < length (requests s). \<not> rejected (requests s ! c) \<Longrightarrow> drain s = s"
proof -
  assume a: "\<forall>c < length (requests s). \<not> rejected (requests s ! c)"
  have "requests (drain s) = requests s"
    using a by (intro nth_equalityI) (simp_all add: drain_props)
  moreover have "recs_hidden (drain s) = recs_hidden s" "grid_innerHTML (drain s) = grid_innerHTML s"
    using a by (auto simp: drain_view)
  ultimately show ?thesis
    by (intro state.equality) (simp_all add: drain_props)
qed

lemma inv_init: "inv (init v h g)"
  by (simp add: inv_def init_def)

lemma on_input_timers:
  assumes "inv s"
  shows "timers (on_input s) = [(timer_seq s, now s + 450)]"
    and "debounce (on_input s) = Some (timer_seq s)"
proof -
  have all: "\<forall>(i, due) \<in> set (timers s). debounce s = Some i"
    using assms by (simp add: inv_def)
  have "timers (clearTimeout (debounce s) s) = []"
  proof (cases "debounce s")
    case None
    then have "timers s = []" using all by (cases "timers s") auto
    then show ?thesis by (simp add: clearTimeout_def None)
  next
    case (Some i)
    then have "filter (\<lambda>(j, due). j \<noteq> i) (timers s) = []"
      using all by (auto simp: filter_empty_conv)
    then show ?thesis by (simp add: clearTimeout_def Some)
  qed
  moreover have "now (clearTimeout (debounce s) s) = now s"
    "timer_seq (clearTimeout (debounce s) s) = timer_seq s"
    by (simp_all add: clearTimeout_def split: option.splits)
  ultimately show "timers (on_input s) = [(timer_seq s, now s + 450)]"
    and "debounce (on_input s) = Some (timer_seq s)"
    by (simp_all add: on_input_def setTimeout_def Let_def)
qed

lemma on_input_fields [simp]:
  "requests (on_input s) = requests s"
  "lastController (on_input s) = lastController s"
  "now (on_input s) = now s"
  "input_value (on_input s) = input_value s"
  "recs_hidden (on_input s) = recs_hidden s"
  "grid_innerHTML (on_input s) = grid_innerHTML s"
  "timer_seq (on_input s) = Suc (timer_seq s)"
  by (simp_all add: on_input_def setTimeout_def clearTimeout_def Let_def split: option.splits)

lemma inv_Input: "inv s \<Longrightarrow> inv (step (Input v) s)"
proof -
  assume i: "inv s"
  then have i': "inv (s\<lparr>input_value := v\<rparr>)" by (simp add: inv_def)
  show ?thesis
    using i on_input_timers [OF i'] by (simp add: inv_def)
qed

lemma inv_Elapse: "inv s \<Longrightarrow> inv (step (Elapse d) s)"
  by (simp add: inv_def)

lemma inv_FetchSettle: "inv s \<Longrightarrow> inv (step (FetchSettle c r) s)"
  by (auto simp: inv_def nth_list_update)

lemma run_short:
  "length (trim (input_value s)) < 3 \<Longrightarrow> run s = s\<lparr>recs_hidden := True, grid_innerHTML := []\<rparr>"
  by (simp add: run_def)

lemma run_long:
  assumes "\<not> length (trim (input_value s)) < 3"
  shows "requests (run s) =
           (case lastController s of None \<Rightarrow> requests s
            | Some c \<Rightarrow> (requests s)[c := (requests s ! c)\<lparr>aborted := True\<rparr>])
           @ [\<lparr>task = trim (input_value s), aborted = False, settled = False\<rparr>]"
    and "lastController (run s) = Some (length (requests s))"
  using assms by (auto simp: run_def Let_def abort_def list_update_beyond split: option.splits)

lemma run_fields [simp]:
  "timers (run s) = timers s"
  "debounce (run s) = debounce s"
  "timer_seq (run s) = timer_seq s"
  "now (run s) = now s"
  "input_value (run s) = input_value s"
  by (auto simp: run_def Let_def abort_def split: option.splits)

lemma inv_drain_run:
  assumes "inv s"
  shows "inv (drain (run s))"
proof (cases "length (trim (input_value s)) < 3")
  case True
  have "\<forall>c < length (requests s). \<not> rejected (requests s ! c)"
    using assms by (auto simp: inv_def rejected_def)
  then have "drain (run s) = run s"
    using True by (intro drain_idle) (simp add: run_short)
  then show ?thesis using assms True by (simp add: run_short inv_def)
next
  case False
  note rl = run_long [OF False]
  have len: "length (requests (run s)) = Suc (length (requests s))"
    by (simp add: rl split: option.splits)
  have upd: "(xs[i := x]) ! j = (if i = j \<and> i < length xs then x else xs ! j)" for xs :: "request list" and i j x
    by (cases "i < length xs") (auto simp: nth_list_update list_update_beyond)
  have old: "c < length (requests s) \<Longrightarrow>
      settled (requests (run s) ! c) = settled (requests s ! c)
    \<and> (aborted (requests (run s) ! c) \<longrightarrow> aborted (requests s ! c) \<or> lastController s = Some c)
    \<and> (lastController s = Some c \<longrightarrow> aborted (requests (run s) ! c))" for c
    by (auto simp: rl nth_append upd split: option.splits)
  have new: "\<not> aborted (requests (run s) ! length (requests s))"
    by (simp add: rl nth_append split: option.splits)
  have lc: "lastController s = (if requests s = [] then None else Some (length (requests s) - 1))"
    using assms by (simp add: inv_def)
  have "\<forall>c < length (requests (drain (run s))).
          aborted (requests (drain (run s)) ! c) \<longrightarrow> settled (requests (drain (run s)) ! c)"
    by (auto simp: drain_props rejected_def)
  moreover have "\<forall>c. Suc c < length (requests (drain (run s))) \<longrightarrow> settled (requests (drain (run s)) ! c)"
  proof (intro allI impI)
    fix c assume "Suc c < length (requests (drain (run s)))"
    then have c: "c < length (requests s)" by (simp add: drain_props len)
    show "settled (requests (drain (run s)) ! c)"
    proof (cases "Suc c < length (requests s)")
      case True
      then have "settled (requests s ! c)" using assms by (simp add: inv_def)
      then show ?thesis using c old [OF c] by (simp add: drain_props len rejected_def)
    next
      case False
      then have "lastController s = Some c" using c lc by (cases "requests s") auto
      then have "aborted (requests (run s) ! c)" using old [OF c] by simp
      then show ?thesis using c by (simp add: drain_props len rejected_def)
    qed
  qed
  moreover have "length (requests (drain (run s))) = Suc (length (requests s))"
    by (simp add: drain_props len)
  moreover from this have "requests (drain (run s)) \<noteq> []" by auto
  moreover have "lastController (drain (run s)) = Some (length (requests s))"
    by (simp add: drain_props rl(2))
  moreover have "timers (drain (run s)) = timers s" "debounce (drain (run s)) = debounce s"
    by (simp_all add: drain_props)
  ultimately show ?thesis
    using assms unfolding inv_def by simp
qed

lemma inv_TimerFire: "inv s \<Longrightarrow> inv (step TimerFire s)"
proof -
  assume i: "inv s"
  show ?thesis
  proof (cases "filter (\<lambda>(i, due). due \<le> now s) (timers s)")
    case Nil
    then show ?thesis using i by simp
  next
    case (Cons a rest)
    obtain j due where a: "a = (j, due)" by (cases a)
    have "inv (s\<lparr>timers := filter (\<lambda>(k, d). k \<noteq> j) (timers s)\<rparr>)"
      using i by (auto simp: inv_def intro: le_trans [OF length_filter_le])
    then show ?thesis
      using Cons a inv_drain_run by simp
  qed
qed

lemma inv_step: "inv s \<Longrightarrow> inv (step e s)"
  by (cases e) (simp_all only: inv_Input inv_Elapse inv_TimerFire inv_FetchSettle)

lemma inv_exec: "inv s \<Longrightarrow> inv (exec es s)"
  unfolding exec_def by (induction es arbitrary: s) (simp_all add: inv_step)

lemma step_TimerFire_short:
  assumes "inv s" and "length (trim (input_value s)) < 3"
  shows "step TimerFire s =
     (if \<exists>(i, due) \<in> set (timers s). due \<le> now s
      then s\<lparr>timers := [], recs_hidden := True, grid_innerHTML := []\<rparr> else s)"
proof (cases "filter (\<lambda>(i, due). due \<le> now s) (timers s)")
  case Nil
  then have "\<not> (\<exists>(i, due) \<in> set (timers s). due \<le> now s)"
    by (auto simp: filter_empty_conv)
  then show ?thesis using Nil by simp
next
  case (Cons a rest)
  obtain j due where a: "a = (j, due)" by (cases a)
  have "a \<in> set (filter (\<lambda>(i, due). due \<le> now s) (timers s))"
    by (simp add: Cons)
  then have mem: "(j, due) \<in> set (timers s)" and due: "due \<le> now s"
    by (auto simp: a)
  then have ex: "\<exists>(i, due) \<in> set (timers s). due \<le> now s" by auto
  have all: "\<forall>(i, due) \<in> set (timers s). debounce s = Some i"
    using assms(1) by (simp add: inv_def)
  have "debounce s = Some j" using all mem by auto
  then have emp: "filter (\<lambda>(k, d). k \<noteq> j) (timers s) = []"
    using all by (auto simp: filter_empty_conv)
  let ?s0 = "s\<lparr>timers := []\<rparr>"
  have "\<forall>c < length (requests s). \<not> rejected (requests s ! c)"
    using assms(1) by (auto simp: inv_def rejected_def)
  then have "drain (run ?s0) = run ?s0"
    using assms(2) by (intro drain_idle) (simp add: run_short)
  then have "step TimerFire s = run ?s0"
    using Cons a emp by simp
  then show ?thesis
    using ex assms(2) by (simp add: run_short)
qed

lemmas eval_defs = exec_def init_def on_input_def setTimeout_def clearTimeout_def run_def
  trim_def isWhiteSpace_def ascii_def drain_def reject_def rejected_def abort_def settle_def
  resume_def catch_block_def try_block_def awaiting_def Let_def

section \<open>Input shorter than three code units\<close>

text \<open>
  Claim C5. When the trimmed text of the field is shorter than three code units, \<open>run\<close>
  issues no request, hides the results panel, clears the grid and returns: the state
  changes in these two places only. For a state the page can reach, the whole task of a
  due timeout does the same (no rejected call is waiting), and without a due timeout
  nothing runs.
\<close>

theorem short_input_no_request:
  assumes "s = exec es (init v h g)" and "length (trim (input_value s)) < 3"
  shows "run s = s\<lparr>recs_hidden := True, grid_innerHTML := []\<rparr>
       \<and> requests (run s) = requests s
       \<and> step TimerFire s =
           (if \<exists>(i, due) \<in> set (timers s). due \<le> now s
            then s\<lparr>timers := [], recs_hidden := True, grid_innerHTML := []\<rparr> else s)"
proof -
  have "inv s" using assms(1) inv_exec [OF inv_init] by simp
  then show ?thesis
    using assms(2) step_TimerFire_short by (simp add: run_short)
qed

theorem short_input_no_request_witness:
  "length (trim (input_value (exec [Input (ascii '' ab  ''), Elapse 450] (init [] False (ascii ''x''))))) < 3
   \<and> step TimerFire (exec [Input (ascii '' ab  ''), Elapse 450] (init [] False (ascii ''x'')))
       = \<lparr>input_value = ascii '' ab  '', recs_hidden = True, grid_innerHTML = [],
          lastController = None, debounce = Some 0, timers = [], timer_seq = 1,
          requests = [], now = 450\<rparr>"
proof -
  let ?s = "exec [Input (ascii '' ab  ''), Elapse 450] (init [] False (ascii ''x''))"
  have s: "?s = \<lparr>input_value = ascii '' ab  '', recs_hidden = False, grid_innerHTML = ascii ''x'',
          lastController = None, debounce = Some 0, timers = [(0, 450)], timer_seq = 1,
          requests = [], now = 450\<rparr>"
    by (simp add: eval_defs)
  have h: "length (trim (input_value ?s)) < 3"
    unfolding s by (simp add: eval_defs)
  have "step TimerFire ?s =
           (if \<exists>(i, due) \<in> set (timers ?s). due \<le> now ?s
            then ?s\<lparr>timers := [], recs_hidden := True, grid_innerHTML := []\<rparr> else ?s)"
    using short_input_no_request [OF refl h] by blast
  then have "step TimerFire ?s = \<lparr>input_value = ascii '' ab  '', recs_hidden = True,
          grid_innerHTML = [], lastController = None, debounce = Some 0, timers = [],
          timer_seq = 1, requests = [], now = 450\<rparr>"
    unfolding s by simp
  then show ?thesis using h by blast
qed

section \<open>Escaping and the card template\<close>

lemma replaceAll_char:
  "replaceAll s [c] rep = concat (map (\<lambda>x. if x = c then rep else [x]) s)"
proof (induction s)
  case Nil
  then show ?case by (simp add: replaceAll.simps)
next
  case (Cons a s)
  then show ?case by (subst replaceAll.simps) auto
qed

lemma escapeHTML_spec: "escapeHTML v = spec_escape (ToString v)"
proof -
  have "escapeHTML v = concat (map htmlEntity s)" if "ToString v = s" for s
    unfolding escapeHTML_def that
    by (induction s) (simp_all add: ascii_def replaceAll_char htmlEntity_def)
  then show ?thesis by (simp add: spec_escape_def)
qed

lemma htmlEntity_no_markup: "filter markupChar (htmlEntity c) = []"
  by (simp add: htmlEntity_def markupChar_def ascii_def)

lemma spec_escape_no_markup: "filter markupChar (spec_escape s) = []"
  by (induction s) (simp_all add: spec_escape_def htmlEntity_no_markup)

lemma escapeHTML_no_markup: "filter markupChar (escapeHTML v) = []"
  by (simp add: escapeHTML_spec spec_escape_no_markup)

lemma renderToolCard_spec:
  "renderToolCard t =
     (case encodeURIComponent (slug t) of
        Inl e \<Rightarrow> Inl e
      | Inr enc \<Rightarrow>
          Inr (card_head
               @ spec_escape (ToString (or_else (icon t) (Val (ascii ''AI''))))
               @ after_icon
               @ ascii ''/tools/'' @ enc
               @ after_name_href
               @ spec_escape (ToString (name t))
               @ after_name
               @ spec_escape (ToString (or_else (pricing_type t) (Val [])))
               @ after_pricing
               @ spec_escape (ToString (or_else (description t) (Val [])))
               @ after_description
               @ spec_escape (ToString (or_else (category t) (Val [])))
               @ after_category
               @ concat (map (\<lambda>u. ascii ''<span class=\"pill pill-muted\">''
                                     @ spec_escape (ToString u) @ ascii ''</span>'')
                           (take 3 (or_empty (use_cases t))))
               @ after_pills
               @ ToString (url t)
               @ after_visit
               @ ascii ''/tools/'' @ enc
               @ after_details_href))"
proof -
  have "pill = (\<lambda>u. ascii ''<span class=\"pill pill-muted\">''
                      @ spec_escape (ToString u) @ ascii ''</span>'')"
    by (rule ext) (simp add: pill_def escapeHTML_spec)
  then show ?thesis
    by (simp add: renderToolCard_def Let_def escapeHTML_spec split: sum.splits)
qed

lemma unat_of_char: "unat (of_char c :: jschar) = of_char c"
proof -
  have "(of_char c :: jschar) = of_nat (of_char c)" by (rule of_nat_of_char [symmetric])
  moreover have "(of_char c :: nat) < 65536"
    using nat_of_char_less_256 [of c] by linarith
  ultimately show ?thesis by (simp add: unat_of_nat)
qed

lemma inj_ascii: "inj ascii"
proof (rule injI)
  fix a b assume "ascii a = ascii b"
  then have "map unat (ascii a) = map unat (ascii b)" by simp
  moreover have "unat \<circ> (of_char :: char \<Rightarrow> jschar) = of_char"
    by (rule ext) (simp add: unat_of_char)
  ultimately have "map (of_char :: char \<Rightarrow> nat) a = map of_char b"
    by (simp add: ascii_def)
  then show "a = b" by (simp add: inj_map_eq_map inj_of_char)
qed

lemma ascii_append: "ascii (a @ b) = ascii a @ ascii b"
  by (simp add: ascii_def)

lemma sublist_ascii: "sublist (ascii p) (ascii s) = sublist p s"
proof
  assume "sublist (ascii p) (ascii s)"
  then obtain p' where p': "sublist p' s" "ascii p = map of_char p'"
    unfolding ascii_def using sublist_map_rightE by blast
  then have "ascii p = ascii p'" by (simp add: ascii_def)
  then have "p = p'" using inj_ascii by (simp add: inj_eq)
  then show "sublist p s" using p' by simp
next
  assume "sublist p s"
  then show "sublist (ascii p) (ascii s)"
    unfolding ascii_def by (rule map_mono_sublist)
qed

lemmas template_defs = card_head_def after_icon_def after_name_href_def after_name_def
  after_pricing_def after_description_def after_category_def after_pills_def after_visit_def
  after_details_href_def

lemma script_tool_card:
  "\<exists>c. renderToolCard script_tool = Inr c
       \<and> sublist (ascii ''&lt;script&gt;x&lt;/script&gt;'') c
       \<and> \<not> sublist (ascii ''<script'') c"
proof -
  have enc: "encodeURIComponent (Val (ascii ''x'')) = Inr (ascii ''x'')"
    by (simp add: encodeURIComponent_def ascii_def uriUnreserved_def)
  have nm: "spec_escape (ascii ''<script>x</script>'') = ascii ''&lt;script&gt;x&lt;/script&gt;''"
    by (simp add: spec_escape_def htmlEntity_def ascii_def)
  have ai: "spec_escape (ascii ''AI'') = ascii ''AI''"
    by (simp add: spec_escape_def htmlEntity_def ascii_def)
  have emp: "spec_escape [] = []"
    by (simp add: spec_escape_def)
  have card: "renderToolCard script_tool =
     Inr (card_head @ ascii ''AI'' @ after_icon @ ascii ''/tools/'' @ ascii ''x''
          @ after_name_href @ ascii ''&lt;script&gt;x&lt;/script&gt;'' @ after_name
          @ after_pricing @ after_description @ after_category @ after_pills
          @ ascii ''https://example.com/'' @ after_visit @ ascii ''/tools/'' @ ascii ''x''
          @ after_details_href)"
    by (simp add: renderToolCard_spec script_tool_def enc nm ai emp or_else_def)
  have pos: "sublist (ascii ''&lt;script&gt;x&lt;/script&gt;'')
     (card_head @ ascii ''AI'' @ after_icon @ ascii ''/tools/'' @ ascii ''x''
          @ after_name_href @ ascii ''&lt;script&gt;x&lt;/script&gt;'' @ after_name
          @ after_pricing @ after_description @ after_category @ after_pills
          @ ascii ''https://example.com/'' @ after_visit @ ascii ''/tools/'' @ ascii ''x''
          @ after_details_href)"
    unfolding sublist_def
    by (intro exI [of _ "card_head @ ascii ''AI'' @ after_icon @ ascii ''/tools/'' @ ascii ''x''
          @ after_name_href"] exI [of _ "after_name
          @ after_pricing @ after_description @ after_category @ after_pills
          @ ascii ''https://example.com/'' @ after_visit @ ascii ''/tools/'' @ ascii ''x''
          @ after_details_href"]) simp
  have neg: "\<not> sublist (ascii ''<script'')
     (card_head @ ascii ''AI'' @ after_icon @ ascii ''/tools/'' @ ascii ''x''
          @ after_name_href @ ascii ''&lt;script&gt;x&lt;/script&gt;'' @ after_name
          @ after_pricing @ after_description @ after_category @ after_pills
          @ ascii ''https://example.com/'' @ after_visit @ ascii ''/tools/'' @ ascii ''x''
          @ after_details_href)"
    unfolding template_defs ascii_append [symmetric] sublist_ascii
    by (simp add: sublist_code)
  show ?thesis
    using pos neg by (simp add: card)
qed

text \<open>
  Claim C2. \<open>escapeHTML\<close>, a chain of five \<open>replaceAll\<close> calls, is the one-pass escaping of
  the five characters \<^verbatim>\<open>&\<close>, \<^verbatim>\<open><\<close>, \<^verbatim>\<open>>\<close>, \<^verbatim>\<open>"\<close>, \<^verbatim>\<open>'\<close> (the ampersand is replaced first, so
  no entity is escaped twice), and its result contains none of \<^verbatim>\<open><\<close>, \<^verbatim>\<open>>\<close>, \<^verbatim>\<open>"\<close>, \<^verbatim>\<open>'\<close>.
  Whenever \<open>renderToolCard\<close> returns markup, the icon, name, pricing type, description
  and category and each of the first three use cases stand in it in escaped form, between
  the fixed pieces of the template. The card of the tool named \<^verbatim>\<open><script>x</script>\<close>
  contains \<^verbatim>\<open>&lt;script&gt;x&lt;/script&gt;\<close> and no \<^verbatim>\<open><script\<close>.
\<close>

theorem renderToolCard_escapes_text_fields:
  "escapeHTML v = spec_escape (ToString v)
   \<and> filter markupChar (escapeHTML v) = []
   \<and> renderToolCard t =
       (case encodeURIComponent (slug t) of
          Inl e \<Rightarrow> Inl e
        | Inr enc \<Rightarrow>
            Inr (card_head
                 @ spec_escape (ToString (or_else (icon t) (Val (ascii ''AI''))))
                 @ after_icon
                 @ ascii ''/tools/'' @ enc
                 @ after_name_href
                 @ spec_escape (ToString (name t))
                 @ after_name
                 @ spec_escape (ToString (or_else (pricing_type t) (Val [])))
                 @ after_pricing
                 @ spec_escape (ToString (or_else (description t) (Val [])))
                 @ after_description
                 @ spec_escape (ToString (or_else (category t) (Val [])))
                 @ after_category
                 @ concat (map (\<lambda>u. ascii ''<span class=\"pill pill-muted\">''
                                       @ spec_escape (ToString u) @ ascii ''</span>'')
                             (take 3 (or_empty (use_cases t))))
                 @ after_pills
                 @ ToString (url t)
                 @ after_visit
                 @ ascii ''/tools/'' @ enc
                 @ after_details_href))
   \<and> (\<exists>c. renderToolCard script_tool = Inr c
          \<and> sublist (ascii ''&lt;script&gt;x&lt;/script&gt;'') c
          \<and> \<not> sublist (ascii ''<script'') c)"
  using escapeHTML_spec [of v] escapeHTML_no_markup [of v] renderToolCard_spec [of t]
    script_tool_card
  by (simp only: simp_thms)

section \<open>Absent fields\<close>

lemma escapeHTML_absent:
  "v = Undefined \<or> v = Null \<Longrightarrow> escapeHTML (or_else v (Val [])) = []"
  "v = Undefined \<or> v = Null \<Longrightarrow> escapeHTML (or_else v (Val (ascii ''AI''))) = ascii ''AI''"
  by (auto simp: escapeHTML_spec or_else_def spec_escape_def htmlEntity_def ascii_def)

lemma escapeHTML_empty: "escapeHTML (Val []) = []"
  by (simp add: escapeHTML_spec spec_escape_def)

lemma or_else_absent:
  "v = Undefined \<or> v = Null \<Longrightarrow> or_else v d = or_else (Val []) d"
  by (auto simp: or_else_def)

lemma encode_x: "encodeURIComponent (Val (ascii ''x'')) = Inr (ascii ''x'')"
  by (simp add: encodeURIComponent_def ascii_def uriUnreserved_def)

text \<open>
  Claim C7, as amended. When the pricing type, the description or the category of a tool
  is absent or \<^verbatim>\<open>null\<close>, the card is the one of the same tool with the empty string in
  that field, and the text interpolated for the field is empty. An icon that is absent,
  \<^verbatim>\<open>null\<close> or the empty string is rendered as the fallback text \<^verbatim>\<open>AI\<close>: the card is the one of
  the same tool with the icon \<^verbatim>\<open>AI\<close>. (The claim as stated also covers the icon and the
  name: \<open>absent_name_renders_undefined\<close> below shows the card of a tool without icon and
  without name, which holds \<^verbatim>\<open>AI\<close> and \<^verbatim>\<open>undefined\<close>.)
\<close>

theorem absent_optional_field_renders_empty:
  assumes "v = Undefined \<or> v = Null"
  shows "renderToolCard (t\<lparr>pricing_type := v\<rparr>) = renderToolCard (t\<lparr>pricing_type := Val []\<rparr>)
       \<and> renderToolCard (t\<lparr>description := v\<rparr>) = renderToolCard (t\<lparr>description := Val []\<rparr>)
       \<and> renderToolCard (t\<lparr>category := v\<rparr>) = renderToolCard (t\<lparr>category := Val []\<rparr>)
       \<and> renderToolCard (t\<lparr>icon := v\<rparr>) = renderToolCard (t\<lparr>icon := Val (ascii ''AI'')\<rparr>)
       \<and> renderToolCard (t\<lparr>icon := Val []\<rparr>) = renderToolCard (t\<lparr>icon := Val (ascii ''AI'')\<rparr>)
       \<and> escapeHTML (or_else v (Val [])) = []
       \<and> escapeHTML (or_else (Val []) (Val [])) = []
       \<and> escapeHTML (or_else v (Val (ascii ''AI''))) = ascii ''AI''
       \<and> escapeHTML (or_else (Val []) (Val (ascii ''AI''))) = ascii ''AI''"
proof -
  have e: "or_else v (Val []) = Val []" "or_else (Val []) (Val []) = Val []"
    using assms by (auto simp: or_else_def)
  have i: "or_else v (Val (ascii ''AI'')) = Val (ascii ''AI'')"
    "or_else (Val (ascii ''AI'')) (Val (ascii ''AI'')) = Val (ascii ''AI'')"
    "or_else (Val []) (Val (ascii ''AI'')) = Val (ascii ''AI'')"
    using assms by (auto simp: or_else_def)
  have a: "escapeHTML (Val (ascii ''AI'')) = ascii ''AI''"
    by (simp add: escapeHTML_spec spec_escape_def htmlEntity_def ascii_def)
  show ?thesis
    using escapeHTML_absent [OF assms]
    by (simp add: renderToolCard_def Let_def e i a escapeHTML_empty split: sum.splits)
qed

theorem absent_optional_field_renders_empty_witness:
  "renderToolCard (bare_tool\<lparr>description := Null\<rparr>) = renderToolCard (bare_tool\<lparr>description := Val []\<rparr>)
   \<and> renderToolCard (bare_tool\<lparr>icon := Null\<rparr>) = renderToolCard (bare_tool\<lparr>icon := Val (ascii ''AI'')\<rparr>)
   \<and> renderToolCard (bare_tool\<lparr>icon := Val []\<rparr>) = renderToolCard bare_tool
   \<and> escapeHTML (or_else (Val []) (Val (ascii ''AI''))) = ascii ''AI''
   \<and> renderToolCard bare_tool =
       Inr (card_head @ ascii ''AI'' @ after_icon @ ascii ''/tools/'' @ ascii ''x'' @ after_name_href
            @ ascii ''X'' @ after_name @ after_pricing @ after_description @ after_category
            @ after_pills @ ascii ''https://example.com/'' @ after_visit @ ascii ''/tools/'' @ ascii ''x''
            @ after_details_href)"
proof -
  have n: "(Null :: jsstring jsval) = Undefined \<or> (Null :: jsstring jsval) = Null" by simp
  have x: "spec_escape (ascii ''X'') = ascii ''X''"
    by (simp add: spec_escape_def htmlEntity_def ascii_def)
  have "renderToolCard bare_tool =
       Inr (card_head @ ascii ''AI'' @ after_icon @ ascii ''/tools/'' @ ascii ''x'' @ after_name_href
            @ ascii ''X'' @ after_name @ after_pricing @ after_description @ after_category
            @ after_pills @ ascii ''https://example.com/'' @ after_visit @ ascii ''/tools/'' @ ascii ''x''
            @ after_details_href)"
    using escapeHTML_absent [of Undefined] escapeHTML_absent [of Null]
    by (simp add: renderToolCard_def Let_def bare_tool_def encode_x escapeHTML_spec [of "Val (ascii ''X'')"] x)
  moreover have "bare_tool\<lparr>icon := Undefined\<rparr> = bare_tool"
    by (simp add: bare_tool_def)
  moreover have u: "(Undefined :: jsstring jsval) = Undefined \<or> (Undefined :: jsstring jsval) = Null"
    by simp
  ultimately show ?thesis
    using absent_optional_field_renders_empty [OF n, of bare_tool]
      absent_optional_field_renders_empty [OF u, of bare_tool]
    by simp
qed

theorem absent_name_renders_undefined:
  "name nameless_tool = Undefined \<and> icon nameless_tool = Undefined
   \<and> escapeHTML (name nameless_tool) = ascii ''undefined''
   \<and> escapeHTML (or_else (icon nameless_tool) (Val (ascii ''AI''))) = ascii ''AI''
   \<and> renderToolCard nameless_tool =
       Inr (card_head @ ascii ''AI'' @ after_icon @ ascii ''/tools/'' @ ascii ''x'' @ after_name_href
            @ ascii ''undefined'' @ after_name @ after_pricing @ after_description
            @ after_category @ after_pills @ ascii ''https://example.com/'' @ after_visit
            @ ascii ''/tools/'' @ ascii ''x'' @ after_details_href)"
proof -
  have u: "escapeHTML Undefined = ascii ''undefined''"
    by (simp add: escapeHTML_spec spec_escape_def htmlEntity_def ascii_def)
  show ?thesis
    using escapeHTML_absent [of Undefined] escapeHTML_absent [of Null]
    by (simp add: renderToolCard_def Let_def nameless_tool_def bare_tool_def encode_x u)
qed

section \<open>The links of a card\<close>

lemma unat_of_nat_jschar: "m < 65536 \<Longrightarrow> unat (of_nat m :: jschar) = m"
  by (simp add: unat_of_nat)

lemma hexDigit_unreserved: "n < 16 \<Longrightarrow> uriUnreserved (hexDigit n)"
proof (cases "n < 10")
  case True
  then have "unat (of_nat (0x30 + n) :: jschar) = 0x30 + n"
    by (intro unat_of_nat_jschar) simp
  then show ?thesis
    using True unfolding hexDigit_def uriUnreserved_def word_le_nat_alt by simp
next
  case False
  assume "n < 16"
  with False have "unat (of_nat (0x41 + (n - 10)) :: jschar) = 0x41 + (n - 10)"
    by (intro unat_of_nat_jschar) simp
  then show ?thesis
    using False \<open>n < 16\<close> unfolding hexDigit_def uriUnreserved_def word_le_nat_alt by simp
qed

lemma percent_uriChar: "\<forall>c \<in> set (percent b). uriChar c" if "b < 256"
  using that by (simp add: percent_def uriChar_def hexDigit_unreserved less_mult_imp_div_less)

lemma utf8_bytes: "cp < 0x110000 \<Longrightarrow> \<forall>b \<in> set (utf8 cp). b < 256"
  by (auto simp: utf8_def)

lemma pairCodePoint_bound: "isLead c \<Longrightarrow> isTrail d \<Longrightarrow> pairCodePoint c d < 0x110000"
  unfolding pairCodePoint_def isLead_def isTrail_def word_le_nat_alt by simp arith

lemma unat_jschar_bound: "unat (c :: jschar) < 0x110000"
  using unsigned_less [of c, where ?'a = nat] by simp

lemma percent_utf8_uriChar:
  "cp < 0x110000 \<Longrightarrow> \<forall>c \<in> set (concat (map percent (utf8 cp))). uriChar c"
  using utf8_bytes [of cp] percent_uriChar by auto

lemma Encode_uriChar: "Encode s = Inr r \<Longrightarrow> \<forall>c \<in> set r. uriChar c"
proof (induction s arbitrary: r rule: Encode.induct)
  case 1
  then show ?case by simp
next
  case (2 c cs)
  show ?case
  proof (cases "uriUnreserved c")
    case True
    then show ?thesis
      using 2 by (auto simp: uriChar_def split: sum.splits)
  next
    case nu: False
    show ?thesis
    proof (cases "isLead c")
      case True
      then show ?thesis
        using 2 nu percent_utf8_uriChar [OF pairCodePoint_bound]
        by (auto split: sum.splits list.splits if_splits)
    next
      case False
      then show ?thesis
        using 2 nu percent_utf8_uriChar [OF unat_jschar_bound]
        by (auto split: sum.splits if_splits)
    qed
  qed
qed



lemma after_icon_split:
  \<open>after_icon = ascii (concat [
      ''</span>\<newline>'',
      ''        </div>\<newline>'',
      ''        <div class="min-w-0 flex-1">\<newline>'',
      ''          <div class="flex items-center justify-between gap-3">\<newline>'',
      ''            '']) @ ascii ''<a href="''\<close>
  by (simp add: after_icon_def ascii_append [symmetric])

lemma after_name_href_split:
  \<open>after_name_href = ascii ''" class="truncate''
     @ ascii '' text-base font-semibold tracking-tight text-white hover:text-white/90">''\<close>
  by (simp add: after_name_href_def ascii_append [symmetric])

lemma after_pills_split:
  \<open>after_pills = ascii (concat [
      ''\<newline>'',
      ''          </div>\<newline>'',
      ''        </div>\<newline>'',
      ''      </div>\<newline>'',
      ''      <div class="mt-auto border-t border-white/10 p-5">\<newline>'',
      ''        <div class="flex items-center justify-between gap-3">\<newline>'',
      ''          '']) @ ascii ''<a href="''\<close>
  by (simp add: after_pills_def ascii_append [symmetric])

lemma after_visit_split:
  \<open>after_visit = ascii ''" target="_blank" rel="noopener noreferrer"''
     @ ascii (concat [
      '' class="inline-flex items-center justify-center rounded-xl bg-white px-4 py-2 text-sm font-semibold text-slate-900 hover:bg-white/90">Visit Tool</a>\<newline>'',
      ''          '']) @ ascii ''<a href="''\<close>
  by (simp add: after_visit_def ascii_append [symmetric])

lemma after_details_href_split:
  \<open>after_details_href =
     ascii ''" class="text-sm font-semibold text-white/70 hover:text-white">Details</a>''
     @ ascii (concat [
      ''\<newline>'',
      ''        </div>\<newline>'',
      ''      </div>\<newline>'',
      ''    </div>\<newline>'',
      ''  ''])\<close>
  by (simp add: after_details_href_def ascii_append [symmetric])

lemma renderToolCard_anchors:
  assumes "encodeURIComponent (slug t) = Inr enc"
  shows \<open>\<exists>pre mid1 mid2 post.
     renderToolCard t =
       Inr (pre
            @ ascii ''<a href="'' @ ascii ''/tools/'' @ enc @ ascii ''" class="truncate''
            @ mid1
            @ ascii ''<a href="'' @ ToString (url t)
              @ ascii ''" target="_blank" rel="noopener noreferrer"''
            @ mid2
            @ ascii ''<a href="'' @ ascii ''/tools/'' @ enc
              @ ascii ''" class="text-sm font-semibold text-white/70 hover:text-white">Details</a>''
            @ post)\<close>
proof -
  obtain ai where ai: \<open>after_icon = ai @ ascii ''<a href="''\<close>
    using after_icon_split by blast
  obtain anh where anh: \<open>after_name_href = ascii ''" class="truncate'' @ anh\<close>
    using after_name_href_split by blast
  obtain ap where ap: \<open>after_pills = ap @ ascii ''<a href="''\<close>
    using after_pills_split by blast
  obtain av where av:
    \<open>after_visit = ascii ''" target="_blank" rel="noopener noreferrer"'' @ av @ ascii ''<a href="''\<close>
    using after_visit_split by blast
  obtain adh where adh: \<open>after_details_href =
     ascii ''" class="text-sm font-semibold text-white/70 hover:text-white">Details</a>'' @ adh\<close>
    using after_details_href_split by blast
  show ?thesis
    unfolding renderToolCard_spec assms sum.case ai anh ap av adh
    by (intro exI [of _ "card_head @ spec_escape (ToString (or_else (icon t) (Val (ascii ''AI'')))) @ ai"]
          exI [of _ "anh @ spec_escape (ToString (name t)) @ after_name
                 @ spec_escape (ToString (or_else (pricing_type t) (Val []))) @ after_pricing
                 @ spec_escape (ToString (or_else (description t) (Val []))) @ after_description
                 @ spec_escape (ToString (or_else (category t) (Val []))) @ after_category
                 @ concat (map (\<lambda>u. ascii ''<span class=\"pill pill-muted\">''
                                       @ spec_escape (ToString u) @ ascii ''</span>'')
                             (take 3 (or_empty (use_cases t)))) @ ap"]
          exI [of _ av] exI [of _ adh]) simp
qed


lemma renderToolCard_throws:
  "encodeURIComponent (slug t) = Inl e \<Longrightarrow> renderToolCard t = Inl e"
  by (simp add: renderToolCard_def)

text \<open>
  Claim C10. When \<^verbatim>\<open>encodeURIComponent\<close> accepts the slug, its result consists of unreserved
  characters and percent signs only, and the card holds, in this order: the name link
  with the address \<^verbatim>\<open>/tools/\<close> followed by the encoded slug; the visit link, whose address is
  the text of the tool's \<open>url\<close> as it is (neither escaped nor encoded), followed by
  \<^verbatim>\<open>target="_blank" rel="noopener noreferrer"\<close>; and the details link with the same address as
  the name link. When the slug holds an unpaired surrogate, \<^verbatim>\<open>encodeURIComponent\<close> throws and
  so does \<open>renderToolCard\<close>.
\<close>

theorem renderToolCard_links:
  \<open>(encodeURIComponent (slug t) = Inl e \<longrightarrow> renderToolCard t = Inl e)
   \<and> (encodeURIComponent (slug t) = Inr enc \<longrightarrow>
        (\<forall>c \<in> set enc. uriChar c)
      \<and> (\<exists>pre mid1 mid2 post.
           renderToolCard t =
             Inr (pre
                  @ ascii ''<a href="'' @ ascii ''/tools/'' @ enc @ ascii ''" class="truncate''
                  @ mid1
                  @ ascii ''<a href="'' @ ToString (url t)
                    @ ascii ''" target="_blank" rel="noopener noreferrer"''
                  @ mid2
                  @ ascii ''<a href="'' @ ascii ''/tools/'' @ enc
                    @ ascii ''" class="text-sm font-semibold text-white/70 hover:text-white">Details</a>''
                  @ post)))\<close>
  using renderToolCard_throws [of t e] renderToolCard_anchors [of t enc]
    Encode_uriChar [of "ToString (slug t)" enc]
  by (simp only: encodeURIComponent_def simp_thms) blast

theorem renderToolCard_links_witness:
  \<open>encodeURIComponent (slug link_tool) = Inr (ascii ''my%20tool%2F%C3%A9'')
   \<and> list_all uriChar (ascii ''my%20tool%2F%C3%A9'')
   \<and> (\<exists>pre mid1 mid2 post.
         renderToolCard link_tool =
           Inr (pre
                @ ascii ''<a href="'' @ ascii ''/tools/'' @ ascii ''my%20tool%2F%C3%A9''
                  @ ascii ''" class="truncate''
                @ mid1
                @ ascii ''<a href="'' @ ascii ''https://e.com/?q="><b>''
                  @ ascii ''" target="_blank" rel="noopener noreferrer"''
                @ mid2
                @ ascii ''<a href="'' @ ascii ''/tools/'' @ ascii ''my%20tool%2F%C3%A9''
                  @ ascii ''" class="text-sm font-semibold text-white/70 hover:text-white">Details</a>''
                @ post))\<close>
proof -
  have enc: "encodeURIComponent (slug link_tool) = Inr (ascii ''my%20tool%2F%C3%A9'')"
    by (simp add: link_tool_def encodeURIComponent_def ascii_def uriUnreserved_def isLead_def
        isTrail_def utf8_def percent_def hexDigit_def)
  have url: \<open>ToString (url link_tool) = ascii ''https://e.com/?q="><b>''\<close>
    by (simp add: link_tool_def)
  show ?thesis
    using renderToolCard_links [of link_tool URIError "ascii ''my%20tool%2F%C3%A9''"] enc
    unfolding url list_all_iff by blast
qed

section \<open>The answer of the network\<close>

lemma pending_state_eq:
  "pending_state =
     \<lparr>input_value = ascii ''abc'', recs_hidden = False, grid_innerHTML = ascii ''old'',
      lastController = Some 0, debounce = Some 0, timers = [], timer_seq = 1,
      requests = [\<lparr>task = ascii ''abc'', aborted = False, settled = False\<rparr>], now = 450\<rparr>"
  by (simp add: pending_state_def eval_defs)

lemma bare_tool_card:
  "renderToolCard bare_tool =
       Inr (card_head @ ascii ''AI'' @ after_icon @ ascii ''/tools/'' @ ascii ''x''
            @ after_name_href @ ascii ''X'' @ after_name @ after_pricing @ after_description
            @ after_category @ after_pills @ ascii ''https://example.com/'' @ after_visit
            @ ascii ''/tools/'' @ ascii ''x'' @ after_details_href)"
proof -
  have x: "spec_escape (ascii ''X'') = ascii ''X''"
    by (simp add: spec_escape_def htmlEntity_def ascii_def)
  show ?thesis
    using escapeHTML_absent [of Undefined] escapeHTML_absent [of Null]
    by (simp add: renderToolCard_def Let_def bare_tool_def encode_x
        escapeHTML_spec [of "Val (ascii ''X'')"] x)
qed

lemma step_FetchSettle_awaiting:
  "c < length (requests s) \<Longrightarrow> awaiting (requests s ! c) \<Longrightarrow>
   step (FetchSettle c r) s = settle c (postJSON r) s"
  by simp

lemma settle_hide:
  "resume r s' = s'\<lparr>recs_hidden := True, grid_innerHTML := []\<rparr> \<Longrightarrow>
   s' = s\<lparr>requests := (requests s)[c := (requests s ! c)\<lparr>settled := True\<rparr>]\<rparr> \<Longrightarrow>
   settle c r s =
     s\<lparr>requests := (requests s)[c := (requests s ! c)\<lparr>settled := True\<rparr>],
       recs_hidden := True, grid_innerHTML := []\<rparr>"
  by (simp add: settle_def)

lemma try_block_empty:
  "tools data = Val [] \<or> tools data = Undefined \<or> tools data = Null \<Longrightarrow>
   try_block data s = Inr (s\<lparr>recs_hidden := True, grid_innerHTML := []\<rparr>)"
  by (auto simp: try_block_def)

text \<open>
  Claim C9. When the parsed response has an empty \<open>tools\<close> list, or no \<open>tools\<close> property, or
  \<^verbatim>\<open>null\<close> there, the code after the \<^verbatim>\<open>await\<close> raises no error (\<open>try_block\<close> returns normally),
  hides the panel and empties the grid; the answered request is no longer awaited and
  nothing else changes.
\<close>

theorem empty_tools_hide_panel:
  assumes "tools data = Val [] \<or> tools data = Undefined \<or> tools data = Null"
    and "c < length (requests s)" and "awaiting (requests s ! c)"
  shows "try_block data s = Inr (s\<lparr>recs_hidden := True, grid_innerHTML := []\<rparr>)
       \<and> step (FetchSettle c (HttpResponse status (JsonBody data))) s =
           s\<lparr>requests := (requests s)[c := (requests s ! c)\<lparr>settled := True\<rparr>],
             recs_hidden := True, grid_innerHTML := []\<rparr>"
  using assms by (simp add: try_block_empty settle_def resume_def)

theorem empty_tools_hide_panel_witness:
  "tools \<lparr>tools = Null\<rparr> = Null \<and> 0 < length (requests pending_state)
   \<and> awaiting (requests pending_state ! 0)
   \<and> try_block \<lparr>tools = Val []\<rparr> pending_state
       = Inr (pending_state\<lparr>recs_hidden := True, grid_innerHTML := []\<rparr>)
   \<and> step (FetchSettle 0 (HttpResponse 200 (JsonBody \<lparr>tools = Null\<rparr>))) pending_state =
       \<lparr>input_value = ascii ''abc'', recs_hidden = True, grid_innerHTML = [],
        lastController = Some 0, debounce = Some 0, timers = [], timer_seq = 1,
        requests = [\<lparr>task = ascii ''abc'', aborted = False, settled = True\<rparr>], now = 450\<rparr>"
proof -
  have a: "0 < length (requests pending_state)" "awaiting (requests pending_state ! 0)"
    by (simp_all add: pending_state_eq awaiting_def)
  have n: "tools \<lparr>tools = Null\<rparr> = Val [] \<or> tools \<lparr>tools = Null\<rparr> = Undefined
           \<or> tools \<lparr>tools = Null\<rparr> = Null" by simp
  have e: "tools \<lparr>tools = Val []\<rparr> = Val [] \<or> tools \<lparr>tools = Val []\<rparr> = Undefined
           \<or> tools \<lparr>tools = Val []\<rparr> = Null" by simp
  have "step (FetchSettle 0 (HttpResponse 200 (JsonBody \<lparr>tools = Null\<rparr>))) pending_state =
           pending_state\<lparr>requests := (requests pending_state)[0 := (requests pending_state ! 0)\<lparr>settled := True\<rparr>],
             recs_hidden := True, grid_innerHTML := []\<rparr>"
    using empty_tools_hide_panel [OF n a] by blast
  moreover have "try_block \<lparr>tools = Val []\<rparr> pending_state
       = Inr (pending_state\<lparr>recs_hidden := True, grid_innerHTML := []\<rparr>)"
    using empty_tools_hide_panel [OF e a] by blast
  ultimately show ?thesis
    using a by (simp add: pending_state_eq)
qed

section \<open>Rendering the answer\<close>

lemma map_cards_ok:
  "\<forall>t \<in> set ts. \<exists>enc. encodeURIComponent (slug t) = Inr enc \<Longrightarrow>
   \<exists>cards. map_cards ts = Inr cards \<and> length cards = length ts
     \<and> (\<forall>i < length ts. renderToolCard (ts ! i) = Inr (cards ! i))"
proof (induction ts)
  case Nil
  then show ?case by simp
next
  case (Cons t ts)
  then obtain cards where c: "map_cards ts = Inr cards" "length cards = length ts"
    "\<forall>i < length ts. renderToolCard (ts ! i) = Inr (cards ! i)" by auto
  from Cons.prems obtain enc where "encodeURIComponent (slug t) = Inr enc" by auto
  then obtain card where card: "renderToolCard t = Inr card"
    by (simp add: renderToolCard_def Let_def)
  have "\<forall>i < length (t # ts). renderToolCard ((t # ts) ! i) = Inr ((card # cards) ! i)"
    using c(3) card by (auto simp: nth_Cons split: nat.splits)
  then show ?case
    using c card by (intro exI [of _ "card # cards"]) simp
qed

lemma map_cards_throws:
  "t \<in> set ts \<Longrightarrow> encodeURIComponent (slug t) = Inl e \<Longrightarrow> \<exists>e'. map_cards ts = Inl e'"
  by (induction ts) (auto simp: renderToolCard_throws split: sum.splits)

lemma renderToolCard_take3:
  "renderToolCard (t\<lparr>use_cases := Val (take 3 (or_empty (use_cases t)))\<rparr>) = renderToolCard t"
  by (simp add: renderToolCard_def Let_def split: sum.splits)

lemma resume_ok:
  "try_block data s = Inr s' \<Longrightarrow> resume (postJSON (HttpResponse status (JsonBody data))) s = s'"
  by (simp add: resume_def)

text \<open>
  Claim C8, as amended. For a parsed response whose \<open>tools\<close> list is not empty and in which
  the slug of each of the first five tools can be URI-encoded, the grid receives the
  cards of exactly the first \<open>min 5 (length ts)\<close> tools, in the order of the response, and
  the panel is shown; the card of a tool is the card of the same tool with only its first
  three use cases. (Without the condition on the slugs the claim fails:
  \<open>unencodable_slug_hides_panel\<close> below is a response with one tool and no card.)
\<close>

theorem first_five_tools_rendered:
  assumes "tools data = Val ts" and "ts \<noteq> []"
    and "\<forall>t \<in> set (take 5 ts). \<exists>enc. encodeURIComponent (slug t) = Inr enc"
  shows "\<exists>cards. try_block data s = Inr (s\<lparr>grid_innerHTML := concat cards, recs_hidden := False\<rparr>)
           \<and> resume (postJSON (HttpResponse status (JsonBody data))) s
               = s\<lparr>grid_innerHTML := concat cards, recs_hidden := False\<rparr>
           \<and> length cards = min 5 (length ts)
           \<and> (\<forall>i < length cards. renderToolCard (ts ! i) = Inr (cards ! i))
           \<and> (\<forall>t. renderToolCard (t\<lparr>use_cases := Val (take 3 (or_empty (use_cases t)))\<rparr>)
                    = renderToolCard t)"
proof -
  obtain cards where c: "map_cards (take 5 ts) = Inr cards" "length cards = length (take 5 ts)"
    "\<forall>i < length (take 5 ts). renderToolCard (take 5 ts ! i) = Inr (cards ! i)"
    using map_cards_ok [OF assms(3)] by blast
  have t: "try_block data s = Inr (s\<lparr>grid_innerHTML := concat cards, recs_hidden := False\<rparr>)"
    using assms(1,2) c(1) by (simp add: try_block_def)
  moreover have "length cards = min 5 (length ts)"
    using c(2) by (simp add: min.commute)
  moreover have "\<forall>i < length cards. renderToolCard (ts ! i) = Inr (cards ! i)"
    using c(2,3) by simp
  ultimately show ?thesis
    using renderToolCard_take3 resume_ok [OF t] by blast
qed

lemma encode_letter:
  "encodeURIComponent (Val (ascii ''a'')) = Inr (ascii ''a'')"
  "encodeURIComponent (Val (ascii ''b'')) = Inr (ascii ''b'')"
  "encodeURIComponent (Val (ascii ''c'')) = Inr (ascii ''c'')"
  "encodeURIComponent (Val (ascii ''d'')) = Inr (ascii ''d'')"
  "encodeURIComponent (Val (ascii ''e'')) = Inr (ascii ''e'')"
  by (simp_all add: encodeURIComponent_def ascii_def uriUnreserved_def)

theorem first_five_tools_rendered_witness:
  "length seven_tools = 7
   \<and> (\<exists>cards. try_block \<lparr>tools = Val seven_tools\<rparr> pending_state
                = Inr (pending_state\<lparr>grid_innerHTML := concat cards, recs_hidden := False\<rparr>)
          \<and> map (\<lambda>i. renderToolCard (seven_tools ! i)) [0..<5] = map Inr cards)
   \<and> renderToolCard (seven_tools ! 0)
       = renderToolCard ((named_tool ''a'')\<lparr>use_cases :=
           Val [Val (ascii ''u1''), Val (ascii ''u2''), Val (ascii ''u3'')]\<rparr>)"
proof -
  have a: "tools \<lparr>tools = Val seven_tools\<rparr> = Val seven_tools" by simp
  have b: "seven_tools \<noteq> []" by (simp add: seven_tools_def)
  have c: "\<forall>t \<in> set (take 5 seven_tools). \<exists>enc. encodeURIComponent (slug t) = Inr enc"
    by (simp add: seven_tools_def named_tool_def encode_letter)
  have l: "length seven_tools = 7" by (simp add: seven_tools_def)
  obtain cards where
    "try_block \<lparr>tools = Val seven_tools\<rparr> pending_state
       = Inr (pending_state\<lparr>grid_innerHTML := concat cards, recs_hidden := False\<rparr>)"
    "length cards = min 5 (length seven_tools)"
    "\<forall>i < length cards. renderToolCard (seven_tools ! i) = Inr (cards ! i)"
    and t3: "\<forall>t. renderToolCard (t\<lparr>use_cases := Val (take 3 (or_empty (use_cases t)))\<rparr>)
                    = renderToolCard t"
    using first_five_tools_rendered [OF a b c, of pending_state 200] by blast
  then have "\<exists>cards. try_block \<lparr>tools = Val seven_tools\<rparr> pending_state
                = Inr (pending_state\<lparr>grid_innerHTML := concat cards, recs_hidden := False\<rparr>)
          \<and> map (\<lambda>i. renderToolCard (seven_tools ! i)) [0..<5] = map Inr cards"
    by (intro exI [of _ cards]) (simp add: l list_eq_iff_nth_eq)
  moreover have "renderToolCard (seven_tools ! 0)
       = renderToolCard ((named_tool ''a'')\<lparr>use_cases :=
           Val [Val (ascii ''u1''), Val (ascii ''u2''), Val (ascii ''u3'')]\<rparr>)"
    using t3 [rule_format, of "seven_tools ! 0"] by (simp add: seven_tools_def)
  ultimately show ?thesis using l by blast
qed

lemma surrogate_throws: "renderToolCard surrogate_tool = Inl URIError"
  by (simp add: renderToolCard_def surrogate_tool_def encodeURIComponent_def uriUnreserved_def
      isLead_def isTrail_def ascii_def)

theorem unencodable_slug_hides_panel:
  "or_empty (tools \<lparr>tools = Val [surrogate_tool]\<rparr>) = [surrogate_tool]
   \<and> renderToolCard surrogate_tool = Inl URIError
   \<and> step (FetchSettle 0 (HttpResponse 200 (JsonBody \<lparr>tools = Val [surrogate_tool]\<rparr>)))
        pending_state =
       \<lparr>input_value = ascii ''abc'', recs_hidden = True, grid_innerHTML = [],
        lastController = Some 0, debounce = Some 0, timers = [], timer_seq = 1,
        requests = [\<lparr>task = ascii ''abc'', aborted = False, settled = True\<rparr>], now = 450\<rparr>"
  by (simp add: surrogate_throws pending_state_eq awaiting_def settle_def resume_def
      try_block_def catch_block_def)

section \<open>Failures\<close>

lemma drain_abort:
  assumes "inv s" and "c < length (requests s)" and "awaiting (requests s ! c)"
  shows "drain (abort c s) =
     s\<lparr>requests := (requests s)[c := (requests s ! c)\<lparr>aborted := True, settled := True\<rparr>],
       recs_hidden := True, grid_innerHTML := []\<rparr>"
proof -
  let ?a = "abort c s"
  have ra: "requests ?a = (requests s)[c := (requests s ! c)\<lparr>aborted := True\<rparr>]"
    using assms(2) by (simp add: abort_def)
  have rc: "rejected (requests ?a ! c)"
    using assms(2,3) by (simp add: ra rejected_def awaiting_def)
  have ro: "i < length (requests s) \<Longrightarrow> i \<noteq> c \<Longrightarrow> \<not> rejected (requests ?a ! i)" for i
    using assms(1) by (auto simp: ra rejected_def inv_def)
  have ex: "\<exists>i < length (requests ?a). rejected (requests ?a ! i)"
    using rc assms(2) by (auto simp: ra)
  have "requests (drain ?a) =
      (requests s)[c := (requests s ! c)\<lparr>aborted := True, settled := True\<rparr>]"
  proof (intro nth_equalityI)
    show "length (requests (drain ?a)) =
      length ((requests s)[c := (requests s ! c)\<lparr>aborted := True, settled := True\<rparr>])"
      by (simp add: drain_props ra)
  next
    fix i assume "i < length (requests (drain ?a))"
    then have i: "i < length (requests s)" by (simp add: drain_props ra)
    have ia: "i < length (requests ?a)" using i by (simp add: ra)
    show "requests (drain ?a) ! i =
      (requests s)[c := (requests s ! c)\<lparr>aborted := True, settled := True\<rparr>] ! i"
    proof (cases "i = c")
      case True
      then show ?thesis using i rc drain_props(2) [OF ia] by (simp add: ra)
    next
      case False
      then show ?thesis using i ro [OF i False] drain_props(2) [OF ia] by (simp add: ra)
    qed
  qed
  moreover have "recs_hidden (drain ?a)" "grid_innerHTML (drain ?a) = []"
    using ex by (simp_all add: drain_view)
  ultimately show ?thesis
    by (intro state.equality) (simp_all add: drain_props, simp_all add: abort_def)
qed

text \<open>
  Claim C6, as amended. In a state the page can reach, when the awaited request fails
  because the network failed or because the body is not JSON (whatever the status), the
  panel is hidden and the grid is emptied; the request is no longer awaited and nothing
  else changes: no request is added and no timeout is set. Aborting the awaited request
  has the same effect once the rejected call has continued. The status of a response is
  not looked at: a response is handled as the response with status 200 and the same body.
  (\<open>error_status_with_tools_is_rendered\<close> below is a response with status 500 that is
  rendered.)
\<close>

theorem failures_hide_panel:
  assumes "s = exec es (init v h g)"
    and "c < length (requests s)" and "awaiting (requests s ! c)"
    and "r = NetworkFailure \<or> r = HttpResponse status NotJson"
  shows "step (FetchSettle c r) s =
           s\<lparr>requests := (requests s)[c := (requests s ! c)\<lparr>settled := True\<rparr>],
             recs_hidden := True, grid_innerHTML := []\<rparr>
       \<and> drain (abort c s) =
           s\<lparr>requests := (requests s)[c := (requests s ! c)\<lparr>aborted := True, settled := True\<rparr>],
             recs_hidden := True, grid_innerHTML := []\<rparr>
       \<and> step (FetchSettle c (HttpResponse status b)) s
           = step (FetchSettle c (HttpResponse 200 b)) s"
proof -
  have i: "inv s" using assms(1) inv_exec [OF inv_init] by simp
  have "postJSON r = Inl TypeError \<or> postJSON r = Inl SyntaxError"
    using assms(4) by auto
  then have "step (FetchSettle c r) s =
           s\<lparr>requests := (requests s)[c := (requests s ! c)\<lparr>settled := True\<rparr>],
             recs_hidden := True, grid_innerHTML := []\<rparr>"
    using assms(2,3) by (auto simp: settle_def resume_def catch_block_def)
  moreover have "postJSON (HttpResponse status b) = postJSON (HttpResponse 200 b)"
    by (cases b) simp_all
  ultimately show ?thesis
    using drain_abort [OF i assms(2,3)] by simp
qed

theorem failures_hide_panel_witness:
  "0 < length (requests pending_state) \<and> awaiting (requests pending_state ! 0)
   \<and> step (FetchSettle 0 (HttpResponse 200 NotJson)) pending_state =
       \<lparr>input_value = ascii ''abc'', recs_hidden = True, grid_innerHTML = [],
        lastController = Some 0, debounce = Some 0, timers = [], timer_seq = 1,
        requests = [\<lparr>task = ascii ''abc'', aborted = False, settled = True\<rparr>], now = 450\<rparr>
   \<and> step (FetchSettle 0 NetworkFailure) pending_state
       = step (FetchSettle 0 (HttpResponse 200 NotJson)) pending_state
   \<and> drain (abort 0 pending_state) =
       \<lparr>input_value = ascii ''abc'', recs_hidden = True, grid_innerHTML = [],
        lastController = Some 0, debounce = Some 0, timers = [], timer_seq = 1,
        requests = [\<lparr>task = ascii ''abc'', aborted = True, settled = True\<rparr>], now = 450\<rparr>"
proof -
  have a: "0 < length (requests pending_state)" "awaiting (requests pending_state ! 0)"
    by (simp_all add: pending_state_eq awaiting_def)
  note t = failures_hide_panel [OF pending_state_def a]
  have 1: "step (FetchSettle 0 (HttpResponse 200 NotJson)) pending_state =
           pending_state\<lparr>requests := (requests pending_state)[0 := (requests pending_state ! 0)\<lparr>settled := True\<rparr>],
             recs_hidden := True, grid_innerHTML := []\<rparr>"
    using t [of "HttpResponse 200 NotJson" 200] by blast
  have 2: "step (FetchSettle 0 NetworkFailure) pending_state =
           pending_state\<lparr>requests := (requests pending_state)[0 := (requests pending_state ! 0)\<lparr>settled := True\<rparr>],
             recs_hidden := True, grid_innerHTML := []\<rparr>"
    using t [of NetworkFailure 200] by blast
  have 3: "drain (abort 0 pending_state) =
           pending_state\<lparr>requests := (requests pending_state)[0 := (requests pending_state ! 0)\<lparr>aborted := True, settled := True\<rparr>],
             recs_hidden := True, grid_innerHTML := []\<rparr>"
    using t [of NetworkFailure 200] by blast
  show ?thesis
    unfolding 1 2 3 using a by (simp add: pending_state_eq)
qed

theorem error_status_with_tools_is_rendered:
  "step (FetchSettle 0 (HttpResponse 500 (JsonBody \<lparr>tools = Val [bare_tool]\<rparr>))) pending_state =
     \<lparr>input_value = ascii ''abc'', recs_hidden = False,
      grid_innerHTML =
        card_head @ ascii ''AI'' @ after_icon @ ascii ''/tools/'' @ ascii ''x''
        @ after_name_href @ ascii ''X'' @ after_name @ after_pricing @ after_description
        @ after_category @ after_pills @ ascii ''https://example.com/'' @ after_visit
        @ ascii ''/tools/'' @ ascii ''x'' @ after_details_href,
      lastController = Some 0, debounce = Some 0, timers = [], timer_seq = 1,
      requests = [\<lparr>task = ascii ''abc'', aborted = False, settled = True\<rparr>], now = 450\<rparr>"
  by (simp add: bare_tool_card pending_state_eq awaiting_def settle_def resume_def
      try_block_def)

section \<open>One request at a time\<close>

lemma exec_Nil [simp]: "exec [] s = s"
  by (simp add: exec_def)

lemma exec_Cons [simp]: "exec (e # es) s = exec es (step e s)"
  by (simp add: exec_def)

lemma exec_append: "exec (es @ es') s = exec es' (exec es s)"
  by (simp add: exec_def)

lemma inv_reachable: "s = exec es (init v h g) \<Longrightarrow> inv s"
  using inv_exec [OF inv_init] by simp

lemma only_last_awaiting:
  assumes "\<forall>c. Suc c < length xs \<longrightarrow> \<not> awaiting (xs ! c)"
  shows "length (filter awaiting xs) \<le> 1"
proof (cases xs rule: rev_cases)
  case Nil
  then show ?thesis by simp
next
  case (snoc ys y)
  have "filter awaiting ys = []"
    unfolding filter_empty_conv
  proof
    fix x assume "x \<in> set ys"
    then obtain c where c: "c < length ys" "ys ! c = x"
      by (auto simp: in_set_conv_nth)
    then have "Suc c < length xs" by (simp add: snoc)
    then have "\<not> awaiting (xs ! c)" using assms by blast
    then show "\<not> awaiting x" using c by (simp add: snoc nth_append)
  qed
  then show ?thesis by (simp add: snoc)
qed

lemma inv_awaiting_last:
  "inv s \<Longrightarrow> Suc c < length (requests s) \<Longrightarrow> \<not> awaiting (requests s ! c)"
  by (simp add: inv_def awaiting_def)

lemma abort_last_none_awaiting:
  assumes "inv s"
  shows "filter awaiting (requests (case lastController s of None \<Rightarrow> s | Some c \<Rightarrow> abort c s)) = []"
proof (cases "requests s = []")
  case True
  then show ?thesis using assms by (simp add: inv_def)
next
  case False
  let ?c = "length (requests s) - 1"
  have lc: "lastController s = Some ?c" using assms False by (simp add: inv_def)
  have c: "?c < length (requests s)" using False by (simp add: Suc_leI)
  have "\<not> awaiting x" if "x \<in> set (requests (abort ?c s))" for x
  proof -
    from that obtain i where i: "i < length (requests s)" "requests (abort ?c s) ! i = x"
      using c by (auto simp: in_set_conv_nth abort_def)
    show ?thesis
    proof (cases "i = ?c")
      case True
      then show ?thesis using i c by (auto simp: abort_def awaiting_def)
    next
      case False
      then have "Suc i < length (requests s)" using i by simp
      then have "\<not> awaiting (requests s ! i)" using assms inv_awaiting_last by blast
      then show ?thesis using i False c by (auto simp: abort_def)
    qed
  qed
  then show ?thesis by (simp add: lc filter_empty_conv)
qed

lemma overlap_state_eq:
  "overlap_state =
     \<lparr>input_value = ascii ''abcd'', recs_hidden = False, grid_innerHTML = ascii ''old'',
      lastController = Some 0, debounce = Some 1, timers = [(1, 900)], timer_seq = 2,
      requests = [\<lparr>task = ascii ''abc'', aborted = False, settled = False\<rparr>], now = 900\<rparr>"
  by (simp add: overlap_state_def eval_defs)

lemma run_overlap_state:
  "requests (run overlap_state) =
     [\<lparr>task = ascii ''abc'', aborted = True, settled = False\<rparr>,
      \<lparr>task = ascii ''abcd'', aborted = False, settled = False\<rparr>]"
  by (simp add: overlap_state_eq) (simp add: eval_defs)

text \<open>
  Claim C4. In every state the page can reach, at most one request is awaited. When \<open>run\<close>
  goes on to issue a request it first aborts the controller of the previous one: after
  that step no request is awaited at all, and when the synchronous part of \<open>run\<close> is over
  at most one request is awaited and, if a request was added, none of the earlier ones is.
\<close>

theorem at_most_one_request_awaited:
  assumes "s = exec es (init v h g)"
  shows "length (filter awaiting (requests s)) \<le> 1
       \<and> filter awaiting
           (requests (case lastController s of None \<Rightarrow> s | Some c \<Rightarrow> abort c s)) = []
       \<and> length (filter awaiting (requests (run s))) \<le> 1
       \<and> (\<forall>c < length (requests s).
             length (requests s) < length (requests (run s)) \<longrightarrow> \<not> awaiting (requests (run s) ! c))"
proof -
  have i: "inv s" using assms by (rule inv_reachable)
  have 1: "length (filter awaiting (requests s)) \<le> 1"
    using i inv_awaiting_last by (intro only_last_awaiting) blast
  note 2 = abort_last_none_awaiting [OF i]
  have 3: "length (filter awaiting (requests (run s))) \<le> 1"
   and 4: "\<forall>c < length (requests s).
             length (requests s) < length (requests (run s)) \<longrightarrow> \<not> awaiting (requests (run s) ! c)"
  proof -
    show "length (filter awaiting (requests (run s))) \<le> 1"
    proof (cases "length (trim (input_value s)) < 3")
      case True
      then show ?thesis using 1 by (simp add: run_short)
    next
      case False
      have "requests (run s) =
          requests (case lastController s of None \<Rightarrow> s | Some c \<Rightarrow> abort c s)
          @ [\<lparr>task = trim (input_value s), aborted = False, settled = False\<rparr>]"
        using False by (auto simp: run_def Let_def split: option.splits)
      then show ?thesis using 2 by simp
    qed
    show "\<forall>c < length (requests s).
             length (requests s) < length (requests (run s)) \<longrightarrow> \<not> awaiting (requests (run s) ! c)"
    proof (intro allI impI)
      fix c assume c: "c < length (requests s)"
        and "length (requests s) < length (requests (run s))"
      then have long: "\<not> length (trim (input_value s)) < 3"
        by (auto simp: run_short)
      let ?s1 = "case lastController s of None \<Rightarrow> s | Some c \<Rightarrow> abort c s"
      have r: "requests (run s) = requests ?s1
          @ [\<lparr>task = trim (input_value s), aborted = False, settled = False\<rparr>]"
        using long by (auto simp: run_def Let_def split: option.splits)
      have l: "length (requests ?s1) = length (requests s)"
        by (auto simp: abort_def split: option.splits)
      have "requests ?s1 ! c \<in> set (requests ?s1)" using c l by simp
      then have "\<not> awaiting (requests ?s1 ! c)"
        using 2 by (simp add: filter_empty_conv)
      then show "\<not> awaiting (requests (run s) ! c)"
        using c l by (simp add: r nth_append)
    qed
  qed
  show ?thesis using 1 2 3 4 by blast
qed


theorem at_most_one_request_awaited_witness:
  "length (filter awaiting (requests overlap_state)) \<le> 1
   \<and> filter awaiting (requests overlap_state)
       = [\<lparr>task = ascii ''abc'', aborted = False, settled = False\<rparr>]
   \<and> filter awaiting (requests (abort 0 overlap_state)) = []
   \<and> length (filter awaiting (requests (run overlap_state))) \<le> 1
   \<and> requests (run overlap_state) =
       [\<lparr>task = ascii ''abc'', aborted = True, settled = False\<rparr>,
        \<lparr>task = ascii ''abcd'', aborted = False, settled = False\<rparr>]
   \<and> \<not> awaiting (requests (run overlap_state) ! 0)"
proof -
  note t = at_most_one_request_awaited [OF overlap_state_def]
  have 1: "length (filter awaiting (requests overlap_state)) \<le> 1"
    and 3: "length (filter awaiting (requests (run overlap_state))) \<le> 1"
    using t by blast+
  have "filter awaiting (requests (case lastController overlap_state of
          None \<Rightarrow> overlap_state | Some c \<Rightarrow> abort c overlap_state)) = []"
    using t by blast
  then have 2: "filter awaiting (requests (abort 0 overlap_state)) = []"
    by (simp add: overlap_state_eq)
  have "0 < length (requests overlap_state)
      \<and> length (requests overlap_state) < length (requests (run overlap_state))"
    by (simp add: run_overlap_state) (simp add: overlap_state_eq)
  then have 4: "\<not> awaiting (requests (run overlap_state) ! 0)"
    using t by blast
  have 5: "filter awaiting (requests overlap_state)
       = [\<lparr>task = ascii ''abc'', aborted = False, settled = False\<rparr>]"
    by (simp add: overlap_state_eq awaiting_def)
  show ?thesis
    using 1 2 3 4 5 run_overlap_state by blast
qed

section \<open>Stale answers\<close>

lemma stale_settle_noop:
  assumes "inv s" and "Suc a < length (requests s)"
  shows "step (FetchSettle a r) s = s"
  using inv_awaiting_last [OF assms] by simp

lemma map_cards_length: "map_cards ts = Inr cards \<Longrightarrow> length cards = length ts"
  by (induction ts arbitrary: cards) (auto split: sum.splits)

lemma resume_outcome:
  "resume r s =
     (case r of
        Inl e \<Rightarrow> s\<lparr>recs_hidden := True, grid_innerHTML := []\<rparr>
      | Inr data \<Rightarrow>
          (case map_cards (take 5 (or_empty (tools data))) of
             Inl e \<Rightarrow> s\<lparr>recs_hidden := True, grid_innerHTML := []\<rparr>
           | Inr cards \<Rightarrow>
               if cards = [] then s\<lparr>recs_hidden := True, grid_innerHTML := []\<rparr>
               else s\<lparr>grid_innerHTML := concat cards, recs_hidden := False\<rparr>))"
proof (cases r)
  case (Inl e)
  then show ?thesis by (simp add: resume_def catch_block_def)
next
  case (Inr data)
  show ?thesis
  proof (cases "map_cards (take 5 (or_empty (tools data)))")
    case (Inl e)
    then have "or_empty (tools data) \<noteq> []" by auto
    then show ?thesis
      using Inl Inr by (simp add: resume_def try_block_def catch_block_def)
  next
    case cs: (Inr cards)
    have "length cards = min (length (or_empty (tools data))) 5"
      using map_cards_length [OF cs] by simp
    then have "(cards = []) = (or_empty (tools data) = [])"
      by (cases "or_empty (tools data)") auto
    then show ?thesis
      using cs Inr by (simp add: resume_def try_block_def)
  qed
qed

lemma both_state_eq:
  "both_state =
     \<lparr>input_value = ascii ''abcd'', recs_hidden = True, grid_innerHTML = [],
      lastController = Some 1, debounce = Some 1, timers = [], timer_seq = 2,
      requests = [\<lparr>task = ascii ''abc'', aborted = True, settled = True\<rparr>,
                  \<lparr>task = ascii ''abcd'', aborted = False, settled = False\<rparr>], now = 900\<rparr>"
  by (simp add: both_state_def eval_defs upt_rec)

text \<open>
  Claim C1. Let A and B be two requests of a state the page can reach, A older than B.
  An answer of the network for A changes nothing, so A's tools are never written to the
  grid (A was aborted when a newer request was started, and its call of \<open>run\<close> has
  already continued in the \<^verbatim>\<open>catch\<close> block). Whether A's answer comes before or after B's,
  the state is the one that B's answer alone gives; when B was still awaited, the panel
  and the grid then show the cards of the first five tools of B's answer, or are hidden and
  empty (B failed, B has no tools, or a card of B cannot be rendered).
\<close>

theorem stale_response_never_rendered:
  assumes "s = exec es (init v h g)" and "a < b" and "b < length (requests s)"
  shows "step (FetchSettle a rA) s = s
       \<and> exec [FetchSettle a rA, FetchSettle b rB] s = step (FetchSettle b rB) s
       \<and> exec [FetchSettle b rB, FetchSettle a rA] s = step (FetchSettle b rB) s
       \<and> (awaiting (requests s ! b) \<longrightarrow>
            (case postJSON rB of
               Inl e \<Rightarrow>
                 recs_hidden (step (FetchSettle b rB) s)
                 \<and> grid_innerHTML (step (FetchSettle b rB) s) = []
             | Inr data \<Rightarrow>
                 (case map_cards (take 5 (or_empty (tools data))) of
                    Inl e \<Rightarrow>
                      recs_hidden (step (FetchSettle b rB) s)
                      \<and> grid_innerHTML (step (FetchSettle b rB) s) = []
                  | Inr cards \<Rightarrow>
                      if cards = []
                      then recs_hidden (step (FetchSettle b rB) s)
                           \<and> grid_innerHTML (step (FetchSettle b rB) s) = []
                      else \<not> recs_hidden (step (FetchSettle b rB) s)
                           \<and> grid_innerHTML (step (FetchSettle b rB) s) = concat cards)))"
proof -
  have i: "inv s" using assms(1) by (rule inv_reachable)
  have a: "Suc a < length (requests s)" using assms(2,3) by simp
  have 1: "step (FetchSettle a rA) s = s"
    using i a by (rule stale_settle_noop)
  let ?s = "step (FetchSettle b rB) s"
  have "inv ?s" using i by (rule inv_step)
  moreover have "length (requests ?s) = length (requests s)" by simp
  ultimately have 2: "step (FetchSettle a rA) ?s = ?s"
    using a by (intro stale_settle_noop) simp_all
  have 3: "awaiting (requests s ! b) \<longrightarrow>
            (case postJSON rB of
               Inl e \<Rightarrow> recs_hidden ?s \<and> grid_innerHTML ?s = []
             | Inr data \<Rightarrow>
                 (case map_cards (take 5 (or_empty (tools data))) of
                    Inl e \<Rightarrow> recs_hidden ?s \<and> grid_innerHTML ?s = []
                  | Inr cards \<Rightarrow>
                      if cards = [] then recs_hidden ?s \<and> grid_innerHTML ?s = []
                      else \<not> recs_hidden ?s \<and> grid_innerHTML ?s = concat cards))"
    using assms(3) by (simp add: settle_def resume_outcome split: sum.splits)
  show ?thesis
    using 1 2 3 by simp
qed

theorem stale_response_never_rendered_witness:
  "(0::nat) < 1 \<and> 1 < length (requests both_state) \<and> awaiting (requests both_state ! 1)
   \<and> step (FetchSettle 0 (HttpResponse 200 (JsonBody \<lparr>tools = Val [named_tool ''a'']\<rparr>))) both_state
       = both_state
   \<and> exec [FetchSettle 1 (HttpResponse 200 (JsonBody \<lparr>tools = Val [bare_tool]\<rparr>)),
            FetchSettle 0 (HttpResponse 200 (JsonBody \<lparr>tools = Val [named_tool ''a'']\<rparr>))]
        both_state =
       \<lparr>input_value = ascii ''abcd'', recs_hidden = False,
        grid_innerHTML =
          card_head @ ascii ''AI'' @ after_icon @ ascii ''/tools/'' @ ascii ''x''
          @ after_name_href @ ascii ''X'' @ after_name @ after_pricing @ after_description
          @ after_category @ after_pills @ ascii ''https://example.com/'' @ after_visit
          @ ascii ''/tools/'' @ ascii ''x'' @ after_details_href,
        lastController = Some 1, debounce = Some 1, timers = [], timer_seq = 2,
        requests = [\<lparr>task = ascii ''abc'', aborted = True, settled = True\<rparr>,
                    \<lparr>task = ascii ''abcd'', aborted = False, settled = True\<rparr>], now = 900\<rparr>"
proof -
  have h: "(0::nat) < 1" "1 < length (requests both_state)"
    by (simp_all add: both_state_eq)
  have w: "awaiting (requests both_state ! 1)"
    by (simp add: both_state_eq awaiting_def)
  note t = stale_response_never_rendered [OF both_state_def h]
  have 1: "step (FetchSettle 0 (HttpResponse 200 (JsonBody \<lparr>tools = Val [named_tool ''a'']\<rparr>))) both_state
       = both_state"
    using t by blast
  have 2: "exec [FetchSettle 1 (HttpResponse 200 (JsonBody \<lparr>tools = Val [bare_tool]\<rparr>)),
            FetchSettle 0 (HttpResponse 200 (JsonBody \<lparr>tools = Val [named_tool ''a'']\<rparr>))]
        both_state
      = step (FetchSettle 1 (HttpResponse 200 (JsonBody \<lparr>tools = Val [bare_tool]\<rparr>))) both_state"
    using t by blast
  have 3: "step (FetchSettle 1 (HttpResponse 200 (JsonBody \<lparr>tools = Val [bare_tool]\<rparr>))) both_state =
       \<lparr>input_value = ascii ''abcd'', recs_hidden = False,
        grid_innerHTML =
          card_head @ ascii ''AI'' @ after_icon @ ascii ''/tools/'' @ ascii ''x''
          @ after_name_href @ ascii ''X'' @ after_name @ after_pricing @ after_description
          @ after_category @ after_pills @ ascii ''https://example.com/'' @ after_visit
          @ ascii ''/tools/'' @ ascii ''x'' @ after_details_href,
        lastController = Some 1, debounce = Some 1, timers = [], timer_seq = 2,
        requests = [\<lparr>task = ascii ''abc'', aborted = True, settled = True\<rparr>,
                    \<lparr>task = ascii ''abcd'', aborted = False, settled = True\<rparr>], now = 900\<rparr>"
    by (simp add: bare_tool_card both_state_eq awaiting_def settle_def resume_def try_block_def)
  show ?thesis
    unfolding 2 3 using h w 1 by blast
qed

section \<open>Debouncing\<close>

lemma map_task_update:
  "task y = task (xs ! c) \<Longrightarrow> map task (xs[c := y]) = map task xs"
proof (cases "c < length xs")
  case True
  assume "task y = task (xs ! c)"
  then have "(map task xs)[c := task y] = (map task xs)[c := map task xs ! c]"
    using True by simp
  then show ?thesis by (simp add: map_update)
next
  case False
  then show ?thesis by (simp add: list_update_beyond)
qed

lemma step_TimerFire_due:
  assumes "inv s" and "timers s = [(i, due)]" and "due \<le> now s"
  shows "map task (requests (step TimerFire s)) = map task (requests s) @ issued (input_value s)"
    and "timers (step TimerFire s) = []"
    and "input_value (step TimerFire s) = input_value s"
    and "now (step TimerFire s) = now s"
proof -
  let ?s0 = "s\<lparr>timers := []\<rparr>"
  have st: "step TimerFire s = drain (run ?s0)"
    using assms(2,3) by simp
  have len: "length (requests (drain (run ?s0))) = length (requests (run ?s0))"
    by (simp add: drain_props)
  have "map task (requests (drain (run ?s0))) = map task (requests (run ?s0))"
    by (intro nth_equalityI) (simp_all add: drain_props)
  moreover have "map task (requests (run ?s0)) = map task (requests s) @ issued (input_value s)"
  proof (cases "length (trim (input_value s)) < 3")
    case True
    then show ?thesis by (simp add: run_short issued_def)
  next
    case False
    then show ?thesis
      by (auto simp: run_def Let_def abort_def issued_def map_task_update split: option.splits)
  qed
  ultimately show "map task (requests (step TimerFire s)) = map task (requests s) @ issued (input_value s)"
    by (simp only: st)
  show "timers (step TimerFire s) = []" "input_value (step TimerFire s) = input_value s"
    "now (step TimerFire s) = now s"
    by (simp_all only: st drain_props run_fields) simp_all
qed

lemma step_TimerFire_idle:
  "\<forall>(i, due) \<in> set (timers s). now s < due \<Longrightarrow> step TimerFire s = s"
proof -
  assume "\<forall>(i, due) \<in> set (timers s). now s < due"
  then have "filter (\<lambda>(i, due). due \<le> now s) (timers s) = []"
    by (auto simp: filter_empty_conv)
  then show ?thesis by simp
qed

lemma step_FetchSettle_fields [simp]:
  "map task (requests (step (FetchSettle c r) s)) = map task (requests s)"
  "timers (step (FetchSettle c r) s) = timers s"
  "now (step (FetchSettle c r) s) = now s"
  "input_value (step (FetchSettle c r) s) = input_value s"
  by (simp_all add: map_task_update)

lemma quiet_no_input:
  "450 \<le> el \<Longrightarrow> quiet el es \<Longrightarrow> final_value v es = v"
  by (induction el es rule: quiet.induct) simp_all

lemma fired_stays:
  assumes "inv s" and "timers s = []" and "450 \<le> el" and "quiet el es"
  shows "map task (requests (exec es s)) = map task (requests s)
       \<and> timers (exec es s) = [] \<and> inv (exec es s)"
  using assms
proof (induction el es arbitrary: s rule: quiet.induct)
  case (1 el)
  then show ?case by simp
next
  case (2 el v es)
  then show ?case by simp
next
  case (3 el d es)
  have "inv (step (Elapse d) s)" using "3.prems"(1) by (rule inv_step)
  moreover have "timers (step (Elapse d) s) = []" using "3.prems"(2) by simp
  ultimately show ?case
    using "3.IH" [of "step (Elapse d) s"] "3.prems"(3,4) by simp
next
  case (4 el es)
  have "step TimerFire s = s" using "4.prems"(2) by simp
  then show ?case using "4.IH" [of s] "4.prems" by simp
next
  case (5 el c r es)
  have "inv (step (FetchSettle c r) s)" using "5.prems"(1) by (rule inv_step)
  then show ?case
    using "5.IH" [of "step (FetchSettle c r) s"] "5.prems"(2,3,4)
    by (simp del: step.simps)
qed

lemma armed_fires_once:
  assumes "inv s" and "timers s = [(i, due)]" and "due + el = now s + 450"
    and "quiet el es" and "450 \<le> d"
  shows "map task (requests (exec (es @ [Elapse d, TimerFire]) s))
           = map task (requests s) @ issued (final_value (input_value s) es)
       \<and> timers (exec (es @ [Elapse d, TimerFire]) s) = []"
  using assms
proof (induction el es arbitrary: s i due rule: quiet.induct)
  case (1 el)
  let ?s = "step (Elapse d) s"
  have "inv ?s" using "1.prems"(1) by (rule inv_step)
  moreover have "timers ?s = [(i, due)]" using "1.prems"(2) by simp
  moreover have "due \<le> now ?s" using "1.prems"(3,5) by simp
  ultimately show ?case
    using step_TimerFire_due [of ?s i due] by simp
next
  case (2 el v es)
  let ?s = "step (Input v) s"
  have i0: "inv (s\<lparr>input_value := v\<rparr>)" using "2.prems"(1) by (simp add: inv_def)
  have "inv ?s" using "2.prems"(1) by (rule inv_step)
  moreover have "timers ?s = [(timer_seq s, now s + 450)]"
    using on_input_timers(1) [OF i0] by simp
  moreover have "now ?s = now s" "input_value ?s = v" "requests ?s = requests s"
    by simp_all
  ultimately show ?case
    using "2.IH" [of ?s "timer_seq s" "now s + 450"] "2.prems"(4,5) by simp
next
  case (3 el d' es)
  let ?s = "step (Elapse d') s"
  have "inv ?s" using "3.prems"(1) by (rule inv_step)
  moreover have "timers ?s = [(i, due)]" using "3.prems"(2) by simp
  moreover have "due + (el + d') = now ?s + 450" using "3.prems"(3) by simp
  ultimately show ?case
    using "3.IH" [of ?s i due] "3.prems"(4,5) by simp
next
  case (4 el es)
  show ?case
  proof (cases "due \<le> now s")
    case True
    let ?s = "step TimerFire s"
    note f = step_TimerFire_due [OF "4.prems"(1,2) True]
    have el: "450 \<le> el" using True "4.prems"(3) by simp
    have q: "quiet el (es @ [Elapse d, TimerFire])"
      using "4.prems"(4) by (induction el es rule: quiet.induct) simp_all
    have "inv ?s" using "4.prems"(1) by (rule inv_step)
    then have "map task (requests (exec (es @ [Elapse d, TimerFire]) ?s)) = map task (requests ?s)
       \<and> timers (exec (es @ [Elapse d, TimerFire]) ?s) = []"
      using fired_stays [OF _ f(2) el q] by blast
    moreover have "final_value (input_value s) es = input_value s"
      using el "4.prems"(4) by (simp add: quiet_no_input)
    ultimately show ?thesis using f(1) by simp
  next
    case False
    then have "step TimerFire s = s"
      using "4.prems"(2) by (intro step_TimerFire_idle) simp
    then show ?thesis
      using "4.IH" [of s i due] "4.prems" by simp
  qed
next
  case (5 el c r es)
  let ?s = "step (FetchSettle c r) s"
  have "inv ?s" using "5.prems"(1) by (rule inv_step)
  moreover have "timers ?s = [(i, due)]" using "5.prems"(2) by (simp del: step.simps)
  moreover have "due + el = now ?s + 450" using "5.prems"(3) by (simp del: step.simps)
  ultimately show ?case
    using "5.IH" [of ?s i due] "5.prems"(4,5) by (simp del: step.simps)
qed


text \<open>
  Claim C3, as amended. Every input event cancels the pending timeout and arms one that is
  due 450 ms later. Let an input event be followed by events among which every further
  input event comes less than 450 ms after the one before it, and let at least 450 ms
  pass at the end before the host looks at the timeouts. Then a single search was made,
  for the trimmed text of the last input event: if that text has at least three code units
  exactly one request was issued, and it carries that text; if it is shorter, no request
  was issued (\<open>short_final_input_issues_nothing\<close> below). No timeout is left pending.
\<close>

theorem rapid_input_single_search:
  assumes "s0 = exec es0 (init v0 h g)" and "quiet 0 es" and "450 \<le> d"
  shows "map task (requests (exec (Input v # es @ [Elapse d, TimerFire]) s0))
           = map task (requests s0)
             @ (if 3 \<le> length (trim (final_value v es)) then [trim (final_value v es)] else [])
       \<and> timers (exec (Input v # es @ [Elapse d, TimerFire]) s0) = []
       \<and> timers (step (Input v) s0) = [(timer_seq s0, now s0 + 450)]
       \<and> debounce (step (Input v) s0) = Some (timer_seq s0)"
proof -
  have i: "inv s0" using assms(1) by (rule inv_reachable)
  then have i0: "inv (s0\<lparr>input_value := v\<rparr>)" by (simp add: inv_def)
  let ?s = "step (Input v) s0"
  have t: "timers ?s = [(timer_seq s0, now s0 + 450)]" "debounce ?s = Some (timer_seq s0)"
    using on_input_timers [OF i0] by simp_all
  have "inv ?s" using i by (rule inv_step)
  moreover have "now s0 + 450 + 0 = now ?s + 450" by simp
  ultimately have
    "map task (requests (exec (es @ [Elapse d, TimerFire]) ?s))
           = map task (requests ?s) @ issued (final_value (input_value ?s) es)
       \<and> timers (exec (es @ [Elapse d, TimerFire]) ?s) = []"
    using t(1) assms(2,3) by (intro armed_fires_once)
  then show ?thesis
    using t by (simp add: issued_def)
qed

theorem rapid_input_single_search_witness:
  "quiet 0 [Elapse 100, Input (ascii ''abcd''), Elapse 449, TimerFire, Input (ascii '' abcde ''),
            Elapse 200, TimerFire]
   \<and> (450::nat) \<le> 450
   \<and> map task (requests (exec (Input (ascii ''abc'')
          # [Elapse 100, Input (ascii ''abcd''), Elapse 449, TimerFire, Input (ascii '' abcde ''),
             Elapse 200, TimerFire] @ [Elapse 450, TimerFire]) pending_state))
       = [ascii ''abc'', ascii ''abcde'']"
proof -
  have q: "quiet 0 [Elapse 100, Input (ascii ''abcd''), Elapse 449, TimerFire,
      Input (ascii '' abcde ''), Elapse 200, TimerFire]"
    by simp
  have d: "(450::nat) \<le> 450" by simp
  have f: "trim (final_value (ascii ''abc'') [Elapse 100, Input (ascii ''abcd''), Elapse 449,
      TimerFire, Input (ascii '' abcde ''), Elapse 200, TimerFire]) = ascii ''abcde''"
    by (simp add: trim_def isWhiteSpace_def ascii_def)
  have l: "length (ascii ''abcde'') = 5" by (simp add: ascii_def)
  have r: "map task (requests pending_state) = [ascii ''abc'']"
    by (simp add: pending_state_eq)
  show ?thesis
    using rapid_input_single_search [OF pending_state_def q d, of "ascii ''abc''"] q
    by (simp only: f l r) simp
qed

theorem short_final_input_issues_nothing:
  "quiet 0 [Elapse 100, Input (ascii ''ab'')]
   \<and> requests (exec (Input (ascii ''a'') # [Elapse 100, Input (ascii ''ab'')]
                      @ [Elapse 450, TimerFire]) (init [] False (ascii ''old''))) = []"
  by (simp add: eval_defs)

end
